theory Spec2Isabelle
  imports Main
begin

section \<open>Python strings\<close>

text \<open>
  In the graph (nodes.py, graph.py, main.py) a Python \<open>str\<close> is an Isabelle
  \<open>string\<close>, a character outside ASCII written as its UTF-8 bytes. The tests made
  there are containment of an ASCII keyword or suffix in the lower-cased text, and one
  regular expression without classes and without case folding, so only the ASCII letters
  matter to \<open>lower\<close>. The front end's path extraction (app_ui.py) uses the character
  classes and the case folding of Unicode; there a \<open>str\<close> is the list of its code
  points, see below.
\<close>

definition py_lower_char :: "char \<Rightarrow> char" where
  "py_lower_char c =
     (let n = (of_char c :: nat) in
      if 65 \<le> n \<and> n \<le> 90
      then (case c of Char b0 b1 b2 b3 b4 b5 b6 b7 \<Rightarrow> Char b0 b1 b2 b3 b4 True b6 b7)
      else c)"

text \<open>\<open>s.lower()\<close>\<close>

definition lower :: "string \<Rightarrow> string" where
  "lower s = map py_lower_char s"

text \<open>\<open>s.startswith(p)\<close> and \<open>s.endswith(p)\<close>\<close>

definition startswith :: "'a list \<Rightarrow> 'a list \<Rightarrow> bool" where
  "startswith s p = (take (length p) s = p)"

definition endswith :: "string \<Rightarrow> string \<Rightarrow> bool" where
  "endswith s p = (length p \<le> length s \<and> drop (length s - length p) s = p)"

text \<open>\<open>w in s\<close> on strings: \<open>w\<close> occurs in \<open>s\<close> as a contiguous run.\<close>

fun str_in :: "'a list \<Rightarrow> 'a list \<Rightarrow> bool" where
  "str_in w [] = (w = [])"
| "str_in w (c # cs) = (startswith (c # cs) w \<or> str_in w cs)"

text \<open>\<open>sep.join(xs)\<close>\<close>

fun join :: "string \<Rightarrow> string list \<Rightarrow> string" where
  "join sep [] = []"
| "join sep [x] = x"
| "join sep (x # y # ys) = x @ sep @ join sep (y # ys)"

text \<open>\<open>os.path.basename\<close>: what follows the last slash.\<close>

definition basename :: "string \<Rightarrow> string" where
  "basename p = rev (takeWhile (\<lambda>c. c \<noteq> CHR ''/'') (rev p))"

section \<open>Exceptions\<close>

datatype error =
    RuntimeError string
  | StopIteration
  | KeyError string
  | IndexError
  | AttributeError string
  | TypeError string
  | ValueError string
  | GraphRecursionError
  | HTTPException nat string
  | AgentError error

section \<open>Messages\<close>

text \<open>
  The content of a message is a string or a list of parts; a part is a string or a
  dictionary. A tool call names a tool and carries its argument dictionary.
\<close>

datatype pyval = VStr string | VOther

datatype part = PStr string | PDict "string \<rightharpoonup> pyval"

datatype content = Str string | Parts "part list"

record tool_call =
  tc_name :: string
  tc_args :: "string \<rightharpoonup> string"

text \<open>
  The three message classes of the message library that the nodes create and test with
  \<open>isinstance\<close>. The last field is the message's \<open>id\<close>, \<open>None\<close> until the
  message reducer assigns one.
\<close>

datatype message =
    HumanMessage content "nat option"
  | AIMessage content "tool_call list" "nat option"
  | ToolMessage content "nat option"

fun msg_content :: "message \<Rightarrow> content" where
  "msg_content (HumanMessage c i) = c"
| "msg_content (AIMessage c tcs i) = c"
| "msg_content (ToolMessage c i) = c"

fun msg_id :: "message \<Rightarrow> nat option" where
  "msg_id (HumanMessage c i) = i"
| "msg_id (AIMessage c tcs i) = i"
| "msg_id (ToolMessage c i) = i"

fun with_id :: "nat option \<Rightarrow> message \<Rightarrow> message" where
  "with_id j (HumanMessage c i) = HumanMessage c j"
| "with_id j (AIMessage c tcs i) = AIMessage c tcs j"
| "with_id j (ToolMessage c i) = ToolMessage c j"

text \<open>
  The attribute \<open>type\<close>: the message library fixes it per class, \<open>"human"\<close>,
  \<open>"ai"\<close> and \<open>"tool"\<close>.
\<close>

fun msg_type :: "message \<Rightarrow> string" where
  "msg_type (HumanMessage c i) = ''human''"
| "msg_type (AIMessage c tcs i) = ''ai''"
| "msg_type (ToolMessage c i) = ''tool''"

text \<open>The attribute \<open>tool_calls\<close>, which only an \<open>AIMessage\<close> has.\<close>

fun tool_calls :: "message \<Rightarrow> error + tool_call list" where
  "tool_calls (AIMessage c tcs i) = Inr tcs"
| "tool_calls m = Inl (AttributeError ''tool_calls'')"

text \<open>\<open>isinstance(m, AIMessage) and m.tool_calls\<close>, the test of the routing edges.\<close>

fun has_tool_calls :: "message \<Rightarrow> bool" where
  "has_tool_calls (AIMessage c tcs i) = (tcs \<noteq> [])"
| "has_tool_calls m = False"

fun is_ToolMessage :: "message \<Rightarrow> bool" where
  "is_ToolMessage (ToolMessage c i) = True"
| "is_ToolMessage m = False"

section \<open>Conversation state (state.py)\<close>

text \<open>
  \<open>AgentState\<close>. A key that is absent and a key that holds \<open>None\<close> read the same
  through \<open>state.get\<close>; both are \<open>None\<close> here.
\<close>

record agent_state =
  messages :: "message list"
  file_paths :: "string list"
  active_worker :: string
  last_sql_query :: "string option"
  chart_code_generated :: "bool option"

text \<open>
  What a node returns: a dictionary with some of the keys of the state. A field is
  \<open>None\<close> when the node's dictionary has no such key.
\<close>

record update =
  u_messages :: "message list option"
  u_active_worker :: "string option"
  u_last_sql_query :: "string option option"
  u_chart_code_generated :: "bool option"

definition no_update :: update where
  "no_update = \<lparr>u_messages = None, u_active_worker = None, u_last_sql_query = None,
     u_chart_code_generated = None\<rparr>"

section \<open>The supervisor (nodes.py)\<close>

text \<open>
  The text of a message content, as the supervisor extracts it: a string as it is, a
  list of parts through \<open>part.get("text", "")\<close>, joined by blanks. A part that is a
  string has no \<open>get\<close>; a text entry that is not a string cannot be joined.
\<close>

fun part_text :: "part \<Rightarrow> error + pyval" where
  "part_text (PStr s) = Inl (AttributeError ''get'')"
| "part_text (PDict d) = Inr (case d ''text'' of None \<Rightarrow> VStr [] | Some v \<Rightarrow> v)"

fun part_texts :: "part list \<Rightarrow> error + pyval list" where
  "part_texts [] = Inr []"
| "part_texts (p # ps) =
     (case part_text p of
        Inl e \<Rightarrow> Inl e
      | Inr v \<Rightarrow> (case part_texts ps of Inl e \<Rightarrow> Inl e | Inr vs \<Rightarrow> Inr (v # vs)))"

fun strings_of :: "pyval list \<Rightarrow> error + string list" where
  "strings_of [] = Inr []"
| "strings_of (VStr s # vs) =
     (case strings_of vs of Inl e \<Rightarrow> Inl e | Inr ss \<Rightarrow> Inr (s # ss))"
| "strings_of (VOther # vs) = Inl (TypeError ''join'')"

fun text_of_content :: "content \<Rightarrow> error + string" where
  "text_of_content (Str s) = Inr s"
| "text_of_content (Parts ps) =
     (case part_texts ps of
        Inl e \<Rightarrow> Inl e
      | Inr vs \<Rightarrow> (case strings_of vs of Inl e \<Rightarrow> Inl e | Inr ss \<Rightarrow> Inr (join '' '' ss)))"

definition sql_words :: "string list" where
  "sql_words = [''sql'', ''database'', ''table'', ''query'']"

definition route_to :: "string \<Rightarrow> error + update" where
  "route_to w = Inr (no_update\<lparr>u_active_worker := Some w\<rparr>)"

definition supervisor_node :: "agent_state \<Rightarrow> error + update" where
  "supervisor_node state =
     (if messages state = [] then route_to ''general''
      else
        let last_message = last (messages state) in
        case (if msg_type last_message = ''assistant''
              then (case tool_calls last_message of
                      Inl e \<Rightarrow> Inl e
                    | Inr tcs \<Rightarrow> Inr (tcs = []))
              else Inr False) of
          Inl e \<Rightarrow> Inl e
        | Inr True \<Rightarrow> route_to ''general''
        | Inr False \<Rightarrow>
            (case text_of_content (msg_content last_message) of
               Inl e \<Rightarrow> Inl e
             | Inr text_query \<Rightarrow>
                 let query = lower text_query;
                     files = file_paths state;
                     has_db = list_ex (\<lambda>f. endswith (lower f) ''.db'') files;
                     has_csv = list_ex (\<lambda>f. endswith (lower f) ''.csv'') files
                 in if has_db \<and> list_ex (\<lambda>word. str_in word query) sql_words
                    then route_to ''sql_worker''
                    else if has_csv then route_to ''csv_worker''
                    else route_to ''general''))"

section \<open>Regular expressions of the workers\<close>

text \<open>
  \<open>re.search\<close> tries the pattern at every position from the left and returns the
  first match; here a match is the text of the pattern's group.
\<close>

fun re_search :: "('a list \<Rightarrow> 'b option) \<Rightarrow> 'a list \<Rightarrow> 'b option" where
  "re_search m [] = m []"
| "re_search m (c # cs) = (case m (c # cs) of Some g \<Rightarrow> Some g | None \<Rightarrow> re_search m cs)"

text \<open>
  The lazy \<open>.+?\<close>: it takes one character that is not the newline \<open>nl\<close>, then as
  few more as the rest of the pattern, the test \<open>k\<close> on the remaining text, allows. The
  result is the text it took.
\<close>

fun dot_plus_lazy :: "'a \<Rightarrow> ('a list \<Rightarrow> bool) \<Rightarrow> 'a list \<Rightarrow> 'a list option" where
  "dot_plus_lazy nl k [] = None"
| "dot_plus_lazy nl k (c # cs) =
     (if c = nl then None
      else if k cs then Some [c]
      else map_option ((#) c) (dot_plus_lazy nl k cs))"

text \<open>The tabular worker's pattern \<open>\[Chart saved to (.+?)\]\<close>, matched at the start of \<open>s\<close>.\<close>

definition chart_marker :: "string \<Rightarrow> string option" where
  "chart_marker s =
     (if startswith s ''[Chart saved to ''
      then dot_plus_lazy (CHR 0x0A) (\<lambda>r. startswith r '']'') (drop 16 s)
      else None)"

section \<open>The capabilities the nodes call\<close>

text \<open>
  The language model, the tools and the file system are outside the program. A node
  reads them from an environment: the model's reply to the call of a phase, the result
  of a tool call, and which paths exist. The prompt texts are not modelled; the model's
  reply may depend on the phase and on the whole state. A reply is an assistant message,
  with a string content and its tool calls.
\<close>

datatype phase =
    CsvGenerate | CsvSummarize | SqlGenerate | SqlSummarize | ChartGenerate | ChartSummarize

record llm_response =
  r_content :: string
  r_tool_calls :: "tool_call list"

record env =
  llm :: "phase \<Rightarrow> agent_state \<Rightarrow> llm_response"
  run_tool :: "tool_call \<Rightarrow> content"
  path_exists :: "string \<Rightarrow> bool"

definition response_message :: "llm_response \<Rightarrow> message" where
  "response_message r = AIMessage (Str (r_content r)) (r_tool_calls r) None"

definition os_path_join :: "string \<Rightarrow> string \<Rightarrow> string" where
  "os_path_join a b =
     (if startswith b ''/'' then b
      else if a = [] \<or> endswith a ''/'' then a @ b
      else a @ ''/'' @ b)"

text \<open>\<open>get_sql_tools\<close> (tools.py): it fails when the database file is not in the upload folder.\<close>

definition get_sql_tools :: "env \<Rightarrow> string \<Rightarrow> error + unit" where
  "get_sql_tools ev db_file =
     (let db_path = os_path_join ''uploads'' (basename db_file)
      in if \<not> path_exists ev db_path
         then Inl (RuntimeError (''Database file not found: '' @ db_path))
         else Inr ())"

section \<open>The workers (nodes.py)\<close>

text \<open>\<open>next(f for f in state["file_paths"] if f.endswith('.db'))\<close>\<close>

definition first_db_file :: "string list \<Rightarrow> error + string" where
  "first_db_file files =
     (case List.find (\<lambda>f. endswith f ''.db'') files of
        None \<Rightarrow> Inl StopIteration
      | Some f \<Rightarrow> Inr f)"

definition chart_words :: "string list" where
  "chart_words = [''plot'', ''chart'', ''graph'', ''visualize'', ''draw'',
     ''histogram'', ''bar'', ''line'', ''scatter'', ''pie'']"

definition has_chart_intent :: "string \<Rightarrow> bool" where
  "has_chart_intent user_query = list_ex (\<lambda>w. str_in w user_query) chart_words"

text \<open>\<open>state["messages"][0].content.lower()\<close>: only a string has \<open>lower\<close>.\<close>

fun content_lower :: "content \<Rightarrow> error + string" where
  "content_lower (Str s) = Inr (lower s)"
| "content_lower (Parts ps) = Inl (AttributeError ''lower'')"

text \<open>The truth value of \<open>state.get("last_sql_query")\<close>.\<close>

fun truthy :: "string option \<Rightarrow> bool" where
  "truthy None = False"
| "truthy (Some q) = (q \<noteq> [])"

definition chart_suffix :: string where
  "chart_suffix = [CHR 0x0A, CHR 0x0A, CHR 0xF0, CHR 0x9F, CHR 0x93, CHR 0x8A] @ '' Chart saved to: ''"

definition csv_worker_node :: "env \<Rightarrow> agent_state \<Rightarrow> error + update" where
  "csv_worker_node ev state =
     (if messages state = [] then Inl IndexError
      else
        case last (messages state) of
          ToolMessage c i \<Rightarrow>
            (case c of
               Parts ps \<Rightarrow>
                 Inl (RuntimeError ''Tool output is not a string. Tool normalization failed.'')
             | Str text \<Rightarrow>
                 let chart_path =
                       (if str_in ''[Chart saved to'' text then re_search chart_marker text
                        else None);
                     response = llm ev CsvSummarize state;
                     original_content = r_content response;
                     response' =
                       (case chart_path of
                          None \<Rightarrow> response
                        | Some p \<Rightarrow>
                            if \<not> str_in ''Chart saved to:'' original_content
                            then response\<lparr>r_content := original_content @ chart_suffix @ p\<rparr>
                            else response)
                 in Inr (no_update\<lparr>u_messages := Some [response_message response']\<rparr>))
        | _ \<Rightarrow>
            let response = llm ev CsvGenerate state
            in if r_tool_calls response = []
               then Inl (RuntimeError ''CSV worker failed to call python_analyst tool.'')
               else Inr (no_update\<lparr>u_messages := Some [response_message response]\<rparr>))"

definition sql_worker_node :: "env \<Rightarrow> agent_state \<Rightarrow> error + update" where
  "sql_worker_node ev state =
     (case first_db_file (file_paths state) of
        Inl e \<Rightarrow> Inl e
      | Inr db_file \<Rightarrow>
     (case get_sql_tools ev (os_path_join ''uploads'' db_file) of
        Inl e \<Rightarrow> Inl e
      | Inr tools \<Rightarrow>
     (if messages state = [] then Inl IndexError
      else
        case content_lower (msg_content (hd (messages state))) of
          Inl e \<Rightarrow> Inl e
        | Inr user_query \<Rightarrow>
            if is_ToolMessage (last (messages state))
            then
              if has_chart_intent user_query \<and> truthy (last_sql_query state)
              then Inr (no_update\<lparr>u_active_worker := Some ''db_chart_worker'',
                                   u_messages := Some (messages state)\<rparr>)
              else if has_chart_intent user_query \<and> \<not> truthy (last_sql_query state)
              then Inr (no_update\<lparr>u_messages := Some (messages state @
                     [AIMessage (Str ''Error: Unable to generate chart - SQL query not found.'')
                        [] None])\<rparr>)
              else Inr (no_update\<lparr>u_messages :=
                     Some [response_message (llm ev SqlSummarize state)]\<rparr>)
            else
              let response = llm ev SqlGenerate state;
                  updates = no_update\<lparr>u_messages := Some [response_message response]\<rparr>
              in case r_tool_calls response of
                   [] \<Rightarrow> Inr updates
                 | tc # tcs \<Rightarrow>
                     (case tc_args tc ''query'' of
                        None \<Rightarrow> Inl (KeyError ''query'')
                      | Some sql_query \<Rightarrow>
                          Inr (updates\<lparr>u_last_sql_query := Some (Some sql_query)\<rparr>)))))"

definition db_chart_worker_node :: "env \<Rightarrow> agent_state \<Rightarrow> error + update" where
  "db_chart_worker_node ev state =
     (if \<not> truthy (last_sql_query state)
      then Inl (RuntimeError ''No SQL query found for chart generation.'')
      else
        case first_db_file (file_paths state) of
          Inl e \<Rightarrow> Inl e
        | Inr db_file \<Rightarrow>
            if messages state = [] then Inl IndexError
            else if is_ToolMessage (last (messages state))
                    \<and> chart_code_generated state = Some True
            then Inr (no_update\<lparr>u_messages :=
                        Some [response_message (llm ev ChartSummarize state)],
                      u_chart_code_generated := Some False\<rparr>)
            else
              let response = llm ev ChartGenerate state
              in if r_tool_calls response = []
                 then Inl (RuntimeError
                        (''db_chart_worker failed to call db_python_analyst tool. Response: ''
                           @ r_content response))
                 else Inr (no_update\<lparr>u_messages := Some [response_message response],
                           u_chart_code_generated := Some True\<rparr>))"

section \<open>The message reducer\<close>

text \<open>
  The field \<open>messages\<close> of the state is annotated with the reducer \<open>add_messages\<close>
  of the graph library (state.py): the messages a node returns are merged into the
  history by their \<open>id\<close>. A message without an id gets a fresh one first; a message
  whose id is already in the history replaces the message of that id in place, any other
  message is appended. The fresh ids, random in the library, are drawn from a counter
  here.
\<close>

fun assign_ids :: "nat \<Rightarrow> message list \<Rightarrow> message list \<times> nat" where
  "assign_ids n [] = ([], n)"
| "assign_ids n (m # ms) =
     (case msg_id m of
        Some i \<Rightarrow> (let (ms', n') = assign_ids n ms in (m # ms', n'))
      | None \<Rightarrow> (let (ms', n') = assign_ids (Suc n) ms in (with_id (Some n) m # ms', n')))"

text \<open>\<open>{m.id: i for i, m in enumerate(merged)}\<close>, with \<open>k\<close> the index of the first message.\<close>

fun index_by_id :: "nat \<Rightarrow> message list \<Rightarrow> (nat option \<rightharpoonup> nat) \<Rightarrow> (nat option \<rightharpoonup> nat)" where
  "index_by_id k [] d = d"
| "index_by_id k (m # ms) d = index_by_id (Suc k) ms (d(msg_id m \<mapsto> k))"

fun merge_messages ::
  "message list \<Rightarrow> (nat option \<rightharpoonup> nat) \<Rightarrow> message list \<Rightarrow> message list" where
  "merge_messages merged by_id [] = merged"
| "merge_messages merged by_id (m # ms) =
     (case by_id (msg_id m) of
        Some idx \<Rightarrow> merge_messages (merged[idx := m]) by_id ms
      | None \<Rightarrow> merge_messages (merged @ [m]) (by_id(msg_id m \<mapsto> length merged)) ms)"

definition add_messages :: "nat \<Rightarrow> message list \<Rightarrow> message list \<Rightarrow> message list \<times> nat" where
  "add_messages n left right =
     (let (l, n1) = assign_ids n left;
          (r, n2) = assign_ids n1 right
      in (merge_messages l (index_by_id 0 l Map.empty) r, n2))"

text \<open>
  The history of a run: every message has an id below the counter and no two messages
  share an id. \<open>assigned n new\<close> are new messages with the ids the reducer gives them.
\<close>

definition wf_ids :: "nat \<Rightarrow> message list \<Rightarrow> bool" where
  "wf_ids n ms \<longleftrightarrow> distinct (map msg_id ms) \<and> (\<forall>m \<in> set ms. \<exists>i < n. msg_id m = Some i)"

definition assigned :: "nat \<Rightarrow> message list \<Rightarrow> message list" where
  "assigned n new = map (\<lambda>(i, m). with_id (Some i) m) (enumerate n new)"

text \<open>
  A node's dictionary is merged into the state: \<open>messages\<close> through the reducer, every
  other key by overwriting. The state of a run carries the counter of the fresh ids.
\<close>

type_synonym run_state = "agent_state \<times> nat"

definition apply_update :: "update \<Rightarrow> run_state \<Rightarrow> run_state" where
  "apply_update u st =
     (let s = fst st;
          (ms, n') = (case u_messages u of
                        None \<Rightarrow> (messages s, snd st)
                      | Some new \<Rightarrow> add_messages (snd st) (messages s) new)
      in (s\<lparr>messages := ms,
            active_worker := (case u_active_worker u of None \<Rightarrow> active_worker s | Some w \<Rightarrow> w),
            last_sql_query := (case u_last_sql_query u of None \<Rightarrow> last_sql_query s | Some q \<Rightarrow> q),
            chart_code_generated :=
              (case u_chart_code_generated u of None \<Rightarrow> chart_code_generated s | Some b \<Rightarrow> Some b)\<rparr>,
          n'))"

text \<open>
  What every node returns for \<open>messages\<close>, if anything: new messages, without ids,
  possibly after the whole history as it is.
\<close>

definition appends :: "agent_state \<Rightarrow> update \<Rightarrow> bool" where
  "appends s u \<longleftrightarrow>
     u_messages u = None
     \<or> (\<exists>old new. u_messages u = Some (old @ new) \<and> (old = [] \<or> old = messages s)
           \<and> (\<forall>m \<in> set new. msg_id m = None))"

section \<open>The graph (graph.py)\<close>

datatype node =
    N_supervisor | N_csv_worker | N_sql_worker | N_db_chart_worker
  | N_csv_tools | N_sql_tools | N_db_chart_tools | END

text \<open>
  The prebuilt tool node: it runs every tool call of the latest assistant message and
  returns one tool message per call.
\<close>

definition tool_node :: "env \<Rightarrow> agent_state \<Rightarrow> error + message list" where
  "tool_node ev state =
     (if messages state = [] then Inl (ValueError ''No message found in input'')
      else
        case last (messages state) of
          AIMessage c tcs i \<Rightarrow> Inr (map (\<lambda>tc. ToolMessage (run_tool ev tc) None) tcs)
        | _ \<Rightarrow> Inl (ValueError ''Last message is not an AIMessage''))"

definition tools_node :: "env \<Rightarrow> agent_state \<Rightarrow> error + update" where
  "tools_node ev state =
     (case tool_node ev state of
        Inl e \<Rightarrow> Inl e
      | Inr ms \<Rightarrow> Inr (no_update\<lparr>u_messages := Some ms\<rparr>))"

definition call_sql_tools :: "env \<Rightarrow> agent_state \<Rightarrow> error + update" where
  "call_sql_tools ev state =
     (case first_db_file (file_paths state) of
        Inl e \<Rightarrow> Inl e
      | Inr db_file \<Rightarrow>
     (case get_sql_tools ev db_file of
        Inl e \<Rightarrow> Inl e
      | Inr tools \<Rightarrow>
     (case tool_node ev state of
        Inl e \<Rightarrow> Inl e
      | Inr ms \<Rightarrow>
          Inr (no_update\<lparr>u_messages := Some ms,
                 u_last_sql_query := Some (last_sql_query state)\<rparr>))))"

text \<open>The edge after the supervisor: the active worker, looked up in the edge's table.\<close>

definition supervisor_edge :: "agent_state \<Rightarrow> error + node" where
  "supervisor_edge state =
     (if active_worker state = ''csv_worker'' then Inr N_csv_worker
      else if active_worker state = ''sql_worker'' then Inr N_sql_worker
      else if active_worker state = ''general'' then Inr END
      else Inl (KeyError (active_worker state)))"

text \<open>The edge after the tabular worker and after the chart worker.\<close>

definition tool_edge :: "node \<Rightarrow> agent_state \<Rightarrow> error + node" where
  "tool_edge tools state =
     (if messages state = [] then Inl IndexError
      else if has_tool_calls (last (messages state)) then Inr tools
      else Inr END)"

definition sql_router :: "agent_state \<Rightarrow> error + node" where
  "sql_router state =
     (if messages state = [] then Inl IndexError
      else if has_tool_calls (last (messages state)) then Inr N_sql_tools
      else if active_worker state = ''db_chart_worker'' then Inr N_db_chart_worker
      else Inr END)"

fun node_fn :: "env \<Rightarrow> node \<Rightarrow> agent_state \<Rightarrow> error + update" where
  "node_fn ev N_supervisor state = supervisor_node state"
| "node_fn ev N_csv_worker state = csv_worker_node ev state"
| "node_fn ev N_sql_worker state = sql_worker_node ev state"
| "node_fn ev N_db_chart_worker state = db_chart_worker_node ev state"
| "node_fn ev N_csv_tools state = tools_node ev state"
| "node_fn ev N_db_chart_tools state = tools_node ev state"
| "node_fn ev N_sql_tools state = call_sql_tools ev state"
| "node_fn ev END state = Inr no_update"

fun next_node :: "node \<Rightarrow> agent_state \<Rightarrow> error + node" where
  "next_node N_supervisor state = supervisor_edge state"
| "next_node N_csv_worker state = tool_edge N_csv_tools state"
| "next_node N_sql_worker state = sql_router state"
| "next_node N_db_chart_worker state = tool_edge N_db_chart_tools state"
| "next_node N_csv_tools state = Inr N_csv_worker"
| "next_node N_sql_tools state = Inr N_sql_worker"
| "next_node N_db_chart_tools state = Inr N_db_chart_worker"
| "next_node END state = Inr END"

text \<open>One visit of a node: run it, merge what it returns, follow the edge.\<close>

definition step :: "env \<Rightarrow> node \<Rightarrow> run_state \<Rightarrow> error + node \<times> run_state" where
  "step ev nd st =
     (case node_fn ev nd (fst st) of
        Inl e \<Rightarrow> Inl e
      | Inr u \<Rightarrow>
          (let st' = apply_update u st
           in case next_node nd (fst st') of
                Inl e \<Rightarrow> Inl e
              | Inr nd' \<Rightarrow> Inr (nd', st')))"

section \<open>A run of the graph\<close>

text \<open>
  Modelled from the spec: the engine that runs the compiled graph is the graph library's,
  not this repository's. The run starts at the supervisor, visits one node per step and
  ends at \<open>END\<close>; the recursion limit of the run's configuration caps the number of
  node visits, and a run that has not reached \<open>END\<close> within the limit fails with the
  library's recursion error. \<open>evs k\<close> is the environment at visit \<open>k\<close>: the model and
  the tools may answer differently each time. The result comes with the number of
  visits made.
\<close>

fun run_graph ::
  "(nat \<Rightarrow> env) \<Rightarrow> nat \<Rightarrow> nat \<Rightarrow> node \<Rightarrow> run_state \<Rightarrow> (error + agent_state) \<times> nat" where
  "run_graph evs 0 k nd st =
     (if nd = END then (Inr (fst st), k) else (Inl GraphRecursionError, k))"
| "run_graph evs (Suc fuel) k nd st =
     (if nd = END then (Inr (fst st), k)
      else
        case step (evs k) nd st of
          Inl e \<Rightarrow> (Inl e, Suc k)
        | Inr (nd', st') \<Rightarrow> run_graph evs fuel (Suc k) nd' st')"

text \<open>The input of a run is written into the state through the reducer as well.\<close>

definition initial_run_state :: "agent_state \<Rightarrow> run_state" where
  "initial_run_state input =
     (let (ms, n) = add_messages 0 [] (messages input) in (input\<lparr>messages := ms\<rparr>, n))"

definition app_graph_invoke ::
  "(nat \<Rightarrow> env) \<Rightarrow> nat \<Rightarrow> agent_state \<Rightarrow> (error + agent_state) \<times> nat" where
  "app_graph_invoke evs limit input = run_graph evs limit 0 N_supervisor (initial_run_state input)"

text \<open>
  The states a run can be in: the run starts at the supervisor with the input written
  into the state, and each visit of a node that does not fail leads to the next state,
  whatever the model, the tools and the file system answer at that visit.
\<close>

inductive reachable :: "agent_state \<Rightarrow> node \<times> run_state \<Rightarrow> bool" for input where
  start: "reachable input (N_supervisor, initial_run_state input)"
| visit: "reachable input (nd, st) \<Longrightarrow> step ev nd st = Inr (nd', st')
          \<Longrightarrow> reachable input (nd', st')"

section \<open>The query endpoint (main.py)\<close>

definition get_local_files :: "string list \<Rightarrow> string list" where
  "get_local_files listing =
     filter (\<lambda>f. endswith (lower f) ''.csv'' \<or> endswith (lower f) ''.db'') listing"

definition recursion_limit :: nat where
  "recursion_limit = 100"

definition initial_state :: "string list \<Rightarrow> string \<Rightarrow> agent_state" where
  "initial_state available_files prompt =
     \<lparr>messages = [HumanMessage (Str prompt) None], file_paths = available_files,
      active_worker = ''supervisor'', last_sql_query = None, chart_code_generated = None\<rparr>"

record query_response =
  query :: string
  active_files :: "string list"
  answer :: content

text \<open>
  \<open>process_query\<close>: \<open>listing\<close> is the content of the upload folder. Every exception
  of the run is caught and becomes the HTTP error 500, \<open>AgentError\<close> here.
\<close>

definition process_query :: "(nat \<Rightarrow> env) \<Rightarrow> string list \<Rightarrow> string \<Rightarrow> error + query_response" where
  "process_query evs listing prompt =
     (let available_files = get_local_files listing
      in if available_files = []
         then Inl (HTTPException 400 ''No data files found in the uploads directory.'')
         else
           case fst (app_graph_invoke evs recursion_limit (initial_state available_files prompt)) of
             Inl e \<Rightarrow> Inl (AgentError e)
           | Inr final_output \<Rightarrow>
               if messages final_output = [] then Inl (AgentError IndexError)
               else Inr \<lparr>query = prompt, active_files = available_files,
                         answer = msg_content (last (messages final_output))\<rparr>)"

section \<open>Chart-path extraction (app_ui.py)\<close>

text \<open>
  Here a Python \<open>str\<close> is the list of its code points, and \<open>codes\<close> gives the code
  points of an ASCII literal. Two tables of the Unicode database are parameters: which
  code points outside ASCII the class \<open>\w\<close> takes, and what \<open>str.lower\<close> makes of a
  code point outside ASCII, given the text before and after it.
\<close>

type_synonym ustring = "nat list"

definition codes :: "string \<Rightarrow> ustring" where
  "codes s = map of_char s"

record unicode_tables =
  word_code :: "nat \<Rightarrow> bool"
  lower_code :: "ustring \<Rightarrow> nat \<Rightarrow> ustring \<Rightarrow> ustring"

definition ascii_lower :: "nat \<Rightarrow> nat" where
  "ascii_lower c = (if 65 \<le> c \<and> c \<le> 90 then c + 32 else c)"

text \<open>\<open>s.lower()\<close>, with \<open>before\<close> the text already passed.\<close>

fun lower_from :: "unicode_tables \<Rightarrow> ustring \<Rightarrow> ustring \<Rightarrow> ustring" where
  "lower_from T before [] = []"
| "lower_from T before (c # cs) =
     (if c < 128 then [ascii_lower c] else lower_code T before c cs)
     @ lower_from T (before @ [c]) cs"

definition ulower :: "unicode_tables \<Rightarrow> ustring \<Rightarrow> ustring" where
  "ulower T s = lower_from T [] s"

text \<open>
  The class \<open>\s\<close>, which is also what \<open>strip\<close> removes: the white space of Unicode.
  The class \<open>[\w\-_.]\<close>.
\<close>

definition is_space :: "nat \<Rightarrow> bool" where
  "is_space c \<longleftrightarrow>
     (9 \<le> c \<and> c \<le> 13) \<or> (28 \<le> c \<and> c \<le> 32) \<or> c = 133 \<or> c = 160 \<or> c = 5760
     \<or> (8192 \<le> c \<and> c \<le> 8202) \<or> c = 8232 \<or> c = 8233 \<or> c = 8239 \<or> c = 8287
     \<or> c = 12288"

definition is_word :: "unicode_tables \<Rightarrow> nat \<Rightarrow> bool" where
  "is_word T c =
     (if c < 128
      then (48 \<le> c \<and> c \<le> 57) \<or> (65 \<le> c \<and> c \<le> 90) \<or> c = 95 \<or> (97 \<le> c \<and> c \<le> 122)
      else word_code T c)"

definition is_file_char :: "unicode_tables \<Rightarrow> nat \<Rightarrow> bool" where
  "is_file_char T c = (is_word T c \<or> c = 45 \<or> c = 95 \<or> c = 46)"

text \<open>
  A literal character of a pattern compiled with \<open>re.IGNORECASE\<close>: it matches the
  code points whose lower case is the literal's, and for \<open>i\<close> and \<open>s\<close> also the
  dotless i and the long s. The code points outside ASCII with an ASCII lower case are
  the dotted capital I and the Kelvin sign.
\<close>

definition ci_match :: "char \<Rightarrow> nat \<Rightarrow> bool" where
  "ci_match p c =
     (let n = ascii_lower (of_char p)
      in (c < 128 \<and> ascii_lower c = n)
         \<or> (n = 105 \<and> (c = 304 \<or> c = 305))
         \<or> (n = 107 \<and> c = 8490)
         \<or> (n = 115 \<and> c = 383))"

text \<open>The literal \<open>p\<close> matches at the start of \<open>s\<close>; it occurs somewhere in \<open>s\<close>.\<close>

fun istartswith :: "ustring \<Rightarrow> string \<Rightarrow> bool" where
  "istartswith s [] = True"
| "istartswith [] (p # ps) = False"
| "istartswith (c # cs) (p # ps) = (ci_match p c \<and> istartswith cs ps)"

fun ci_in :: "string \<Rightarrow> ustring \<Rightarrow> bool" where
  "ci_in p [] = istartswith [] p"
| "ci_in p (c # cs) = (istartswith (c # cs) p \<or> ci_in p cs)"

text \<open>
  A greedy repetition gives characters back one at a time: the rest of the pattern,
  \<open>m\<close>, is tried after \<open>j\<close> repetitions, from the most down to \<open>lo\<close>.
\<close>

fun try_down :: "(nat \<Rightarrow> 'a option) \<Rightarrow> nat \<Rightarrow> nat \<Rightarrow> 'a option" where
  "try_down m lo 0 = (if lo = 0 then m 0 else None)"
| "try_down m lo (Suc j) =
     (if Suc j < lo then None
      else case m (Suc j) of Some g \<Rightarrow> Some g | None \<Rightarrow> try_down m lo j)"

text \<open>The group \<open>(.+?\.png)\<close> at the start of \<open>s\<close>, with \<open>k\<close> the test of what follows it.\<close>

definition png_group :: "(ustring \<Rightarrow> bool) \<Rightarrow> ustring \<Rightarrow> ustring option" where
  "png_group k s =
     (case dot_plus_lazy 10 (\<lambda>r. istartswith r ''.png'' \<and> k (drop 4 r)) s of
        None \<Rightarrow> None
      | Some g \<Rightarrow> Some (g @ take 4 (drop (length g) s)))"

text \<open>\<open>saved to:\s*(.+?\.png)\<close>\<close>

definition saved_to_pattern :: "ustring \<Rightarrow> ustring option" where
  "saved_to_pattern s =
     (if istartswith s ''saved to:''
      then let r = drop 9 s
           in try_down (\<lambda>j. png_group (\<lambda>t. True) (drop j r)) 0 (length (takeWhile is_space r))
      else None)"

text \<open>\<open>\[Chart saved to\s+(.+?\.png)\]\<close>\<close>

definition chart_saved_pattern :: "ustring \<Rightarrow> ustring option" where
  "chart_saved_pattern s =
     (if istartswith s ''[Chart saved to''
      then let r = drop 15 s
           in try_down (\<lambda>j. png_group (\<lambda>t. istartswith t '']'') (drop j r)) 1
                (length (takeWhile is_space r))
      else None)"

text \<open>\<open>charts[/\\]([\w\-_.]+\.png)\<close>\<close>

definition charts_pattern :: "unicode_tables \<Rightarrow> ustring \<Rightarrow> ustring option" where
  "charts_pattern T s =
     (if istartswith s ''charts''
      then (case drop 6 s of
              [] \<Rightarrow> None
            | c # r \<Rightarrow>
                if c = 47 \<or> c = 92
                then try_down (\<lambda>j. if istartswith (drop j r) ''.png'' then Some (take (j + 4) r)
                                    else None) 1
                       (length (takeWhile (is_file_char T) r))
                else None)
      else None)"

text \<open>\<open>s.strip()\<close> and \<open>s.replace("\\", "/")\<close>\<close>

definition strip :: "ustring \<Rightarrow> ustring" where
  "strip s = rev (dropWhile is_space (rev (dropWhile is_space s)))"

definition replace_backslash :: "ustring \<Rightarrow> ustring" where
  "replace_backslash s = map (\<lambda>c. if c = 92 then 47 else c) s"

text \<open>What \<open>extract_chart_path\<close> returns for the text of the first pattern that matches.\<close>

definition relative_chart_path :: "unicode_tables \<Rightarrow> ustring \<Rightarrow> ustring" where
  "relative_chart_path T full_path =
     (let as_is = (if startswith full_path (codes ''charts'') then replace_backslash full_path
                   else full_path)
      in if str_in (codes ''charts'') (ulower T full_path)
         then (case re_search (charts_pattern T) full_path of
                 Some file \<Rightarrow> codes ''charts/'' @ file
               | None \<Rightarrow> as_is)
         else as_is)"

definition extract_chart_path :: "unicode_tables \<Rightarrow> ustring \<Rightarrow> ustring option" where
  "extract_chart_path T text =
     (case re_search saved_to_pattern text of
        Some g \<Rightarrow> Some (relative_chart_path T (strip g))
      | None \<Rightarrow>
          (case re_search chart_saved_pattern text of
             Some g \<Rightarrow> Some (relative_chart_path T (strip g))
           | None \<Rightarrow> None))"

section \<open>Sample environments and states\<close>

text \<open>
  Concrete capabilities for the instances below: a model that always answers in plain
  text, a model that always asks for a tool, tools that always return a string, an
  upload folder in which every file exists, and Unicode tables that leave every code
  point outside ASCII alone.
\<close>

definition sample_call :: tool_call where
  "sample_call = \<lparr>tc_name = ''tool'', tc_args = [''query'' \<mapsto> ''SELECT 1'']\<rparr>"

definition plain_text_env :: env where
  "plain_text_env =
     \<lparr>llm = (\<lambda>p s. \<lparr>r_content = ''plain text'', r_tool_calls = []\<rparr>),
      run_tool = (\<lambda>tc. Str ''result''),
      path_exists = (\<lambda>p. True)\<rparr>"

definition tool_calling_env :: env where
  "tool_calling_env =
     \<lparr>llm = (\<lambda>p s. \<lparr>r_content = [], r_tool_calls = [sample_call]\<rparr>),
      run_tool = (\<lambda>tc. Str ''result''),
      path_exists = (\<lambda>p. True)\<rparr>"

definition always_tool_calling :: "nat \<Rightarrow> env" where
  "always_tool_calling k = tool_calling_env"

definition sample_tables :: unicode_tables where
  "sample_tables = \<lparr>word_code = (\<lambda>c. False), lower_code = (\<lambda>before c after. [c])\<rparr>"

definition sample_state :: "message list \<Rightarrow> string list \<Rightarrow> string option \<Rightarrow> agent_state" where
  "sample_state ms files q =
     \<lparr>messages = ms, file_paths = files, active_worker = ''sql_worker'',
      last_sql_query = q, chart_code_generated = None\<rparr>"

section \<open>Facts about the string operations\<close>

lemma startswith_iff: "startswith s p \<longleftrightarrow> (\<exists>r. s = p @ r)"
  unfolding startswith_def
proof
  assume "take (length p) s = p"
  then have "s = p @ drop (length p) s" by (metis append_take_drop_id)
  then show "\<exists>r. s = p @ r" ..
next
  assume "\<exists>r. s = p @ r"
  then show "take (length p) s = p" by auto
qed

lemma endswith_iff: "endswith s p \<longleftrightarrow> (\<exists>stem. s = stem @ p)"
  unfolding endswith_def
proof
  assume a: "length p \<le> length s \<and> drop (length s - length p) s = p"
  then have "s = take (length s - length p) s @ p" by (metis append_take_drop_id)
  then show "\<exists>stem. s = stem @ p" ..
next
  assume "\<exists>stem. s = stem @ p"
  then show "length p \<le> length s \<and> drop (length s - length p) s = p" by auto
qed

lemma str_in_iff: "str_in w s \<longleftrightarrow> (\<exists>pre post. s = pre @ w @ post)"
proof (induction s)
  case Nil
  then show ?case by auto
next
  case (Cons c cs)
  show ?case
  proof
    assume "str_in w (c # cs)"
    then consider "startswith (c # cs) w" | "str_in w cs" by auto
    then show "\<exists>pre post. c # cs = pre @ w @ post"
    proof cases
      case 1
      then obtain r where "c # cs = w @ r" using startswith_iff by blast
      then have "c # cs = [] @ w @ r" by simp
      then show ?thesis by blast
    next
      case 2
      then obtain pre post where "cs = pre @ w @ post" using Cons.IH by blast
      then have "c # cs = (c # pre) @ w @ post" by simp
      then show ?thesis by blast
    qed
  next
    assume "\<exists>pre post. c # cs = pre @ w @ post"
    then obtain pre post where e: "c # cs = pre @ w @ post" by blast
    show "str_in w (c # cs)"
    proof (cases pre)
      case Nil
      then have "startswith (c # cs) w" using e startswith_iff by auto
      then show ?thesis by simp
    next
      case (Cons a pre')
      then have "cs = pre' @ w @ post" using e by simp
      then show ?thesis using Cons.IH by auto
    qed
  qed
qed

lemma has_chart_intent_iff:
  "has_chart_intent q \<longleftrightarrow> (\<exists>w \<in> set chart_words. \<exists>pre post. q = pre @ w @ post)"
  by (simp add: has_chart_intent_def list_ex_iff str_in_iff)

section \<open>The supervisor's routing\<close>

text \<open>
  No message class has the type \<open>"assistant"\<close>, so the supervisor's early return for
  it is never taken and a latest message with text is always routed by files and keywords.
\<close>

lemma supervisor_node_text:
  assumes "messages state \<noteq> []"
    and "text_of_content (msg_content (last (messages state))) = Inr text"
  shows "supervisor_node state =
     (if list_ex (\<lambda>f. endswith (lower f) ''.db'') (file_paths state)
         \<and> list_ex (\<lambda>word. str_in word (lower text)) sql_words
      then route_to ''sql_worker''
      else if list_ex (\<lambda>f. endswith (lower f) ''.csv'') (file_paths state)
      then route_to ''csv_worker''
      else route_to ''general'')"
proof -
  have "msg_type (last (messages state)) \<noteq> ''assistant''"
    by (cases "last (messages state)") simp_all
  then show ?thesis using assms by (simp add: supervisor_node_def Let_def)
qed

lemma route_cases:
  assumes "r = (if A then f ''sql_worker'' else if B then f ''csv_worker'' else f ''general'')"
  shows "\<exists>w. r = f w \<and> (w = ''sql_worker'' \<longleftrightarrow> A) \<and> (w = ''csv_worker'' \<longleftrightarrow> \<not> A \<and> B)
    \<and> (w = ''general'' \<longleftrightarrow> \<not> A \<and> \<not> B)"
  using assms by (cases A; cases B; simp)

text \<open>
  Claim C1. For a state with a non-empty message list whose latest message carries text,
  the supervisor returns exactly one of three routes: the SQL worker if and only if some
  file name ends, in lower case, in \<open>.db\<close> and the lower-cased text contains one of
  \<open>sql\<close>, \<open>database\<close>, \<open>table\<close>, \<open>query\<close>; otherwise the tabular worker if and only
  if some file name ends in \<open>.csv\<close>; otherwise \<open>general\<close>. The SQL test comes first,
  whatever tabular files are present.
\<close>

theorem supervisor_routing_policy:
  assumes "messages state \<noteq> []"
    and "text_of_content (msg_content (last (messages state))) = Inr text"
  shows "\<exists>w. supervisor_node state = Inr (no_update\<lparr>u_active_worker := Some w\<rparr>)
    \<and> (w = ''sql_worker'' \<longleftrightarrow>
         (\<exists>f \<in> set (file_paths state). \<exists>stem. lower f = stem @ ''.db'')
         \<and> (\<exists>word \<in> {''sql'', ''database'', ''table'', ''query''}.
              \<exists>pre post. lower text = pre @ word @ post))
    \<and> (w = ''csv_worker'' \<longleftrightarrow>
         \<not> ((\<exists>f \<in> set (file_paths state). \<exists>stem. lower f = stem @ ''.db'')
            \<and> (\<exists>word \<in> {''sql'', ''database'', ''table'', ''query''}.
                 \<exists>pre post. lower text = pre @ word @ post))
         \<and> (\<exists>f \<in> set (file_paths state). \<exists>stem. lower f = stem @ ''.csv''))
    \<and> (w = ''general'' \<longleftrightarrow>
         \<not> ((\<exists>f \<in> set (file_paths state). \<exists>stem. lower f = stem @ ''.db'')
            \<and> (\<exists>word \<in> {''sql'', ''database'', ''table'', ''query''}.
                 \<exists>pre post. lower text = pre @ word @ post))
         \<and> \<not> (\<exists>f \<in> set (file_paths state). \<exists>stem. lower f = stem @ ''.csv''))"
proof -
  let ?db = "\<exists>f \<in> set (file_paths state). \<exists>stem. lower f = stem @ ''.db''"
  let ?kw = "\<exists>word \<in> {''sql'', ''database'', ''table'', ''query''}.
               \<exists>pre post. lower text = pre @ word @ post"
  let ?csv = "\<exists>f \<in> set (file_paths state). \<exists>stem. lower f = stem @ ''.csv''"
  have db: "list_ex (\<lambda>f. endswith (lower f) ''.db'') (file_paths state) \<longleftrightarrow> ?db"
    by (simp add: list_ex_iff endswith_iff)
  have csv: "list_ex (\<lambda>f. endswith (lower f) ''.csv'') (file_paths state) \<longleftrightarrow> ?csv"
    by (simp add: list_ex_iff endswith_iff)
  have kw: "list_ex (\<lambda>word. str_in word (lower text)) sql_words \<longleftrightarrow> ?kw"
    by (simp add: list_ex_iff str_in_iff sql_words_def)
  have "supervisor_node state =
     (if ?db \<and> ?kw then Inr (no_update\<lparr>u_active_worker := Some ''sql_worker''\<rparr>)
      else if ?csv then Inr (no_update\<lparr>u_active_worker := Some ''csv_worker''\<rparr>)
      else Inr (no_update\<lparr>u_active_worker := Some ''general''\<rparr>))"
    unfolding supervisor_node_text [OF assms] db csv kw route_to_def ..
  then show ?thesis by (rule route_cases)
qed

theorem supervisor_routing_policy_witness:
  "supervisor_node (sample_state [HumanMessage (Str ''List the Database tables'') (Some 0)]
       [''products.csv'', ''Shop.DB''] None)
     = Inr (no_update\<lparr>u_active_worker := Some ''sql_worker''\<rparr>)"
proof -
  let ?s = "sample_state [HumanMessage (Str ''List the Database tables'') (Some 0)]
       [''products.csv'', ''Shop.DB''] None"
  have h1: "messages ?s \<noteq> []" by (simp add: sample_state_def)
  have h2: "text_of_content (msg_content (last (messages ?s))) = Inr ''List the Database tables''"
    by (simp add: sample_state_def)
  have l1: "lower ''Shop.DB'' = ''shop'' @ ''.db''"
    by (simp add: lower_def py_lower_char_def)
  have l2: "lower ''List the Database tables'' = ''list the '' @ ''database'' @ '' tables''"
    by (simp add: lower_def py_lower_char_def)
  have db: "\<exists>f \<in> set (file_paths ?s). \<exists>stem. lower f = stem @ ''.db''"
    using l1 by (simp add: sample_state_def)
  have kw: "\<exists>word \<in> {''sql'', ''database'', ''table'', ''query''}.
              \<exists>pre post. lower ''List the Database tables'' = pre @ word @ post"
    using l2 by blast
  from supervisor_routing_policy [OF h1 h2] db kw show ?thesis by auto
qed

lemma supervisor_node_empty:
  "messages state = [] \<Longrightarrow> supervisor_node state = route_to ''general''"
  by (simp add: supervisor_node_def)

text \<open>
  Claim C2. An empty message list is routed to \<open>general\<close> (lemma \<open>supervisor_node_empty\<close>).
  The second half of the claim fails on the code: the supervisor compares the message's
  \<open>type\<close> with \<open>"assistant"\<close>, but an assistant message, an \<open>AIMessage\<close>, has the
  type \<open>"ai"\<close>, as the \<open>isinstance\<close> tests of the graph's edges know. So a history that
  ends in an assistant message without tool calls is routed by keywords like any other:
  with a CSV file present it goes to the tabular worker, not to \<open>general\<close>.
\<close>

theorem supervisor_assistant_message_not_done:
  "supervisor_node (sample_state
       [HumanMessage (Str ''hello'') (Some 0), AIMessage (Str ''The answer is 4.'') [] (Some 1)]
       [''sales.csv''] None)
     = Inr (no_update\<lparr>u_active_worker := Some ''csv_worker''\<rparr>)"
  by (simp add: supervisor_node_def sample_state_def route_to_def endswith_def lower_def
      py_lower_char_def sql_words_def startswith_def Let_def)

text \<open>
  Claim C9. The supervisor and the upload folder's listing accept a database file by its
  lower-cased name, the SQL worker and the chart worker pick it by \<open>f.endswith('.db')\<close>
  on the name as it is. For the file \<open>DATA.DB\<close> and a query with the word
  \<open>database\<close> the supervisor routes to the SQL worker, and the worker's \<open>next\<close> finds
  no file: it raises \<open>StopIteration\<close>, whatever the model and the tools do. The same
  holds for the chart worker.
\<close>

theorem uppercase_db_stops_workers:
  "supervisor_node (sample_state [HumanMessage (Str ''list the database tables'') (Some 0)]
       [''DATA.DB''] (Some ''SELECT 1''))
     = Inr (no_update\<lparr>u_active_worker := Some ''sql_worker''\<rparr>)
   \<and> sql_worker_node ev (sample_state [HumanMessage (Str ''list the database tables'') (Some 0)]
       [''DATA.DB''] (Some ''SELECT 1'')) = Inl StopIteration
   \<and> db_chart_worker_node ev (sample_state [HumanMessage (Str ''list the database tables'') (Some 0)]
       [''DATA.DB''] (Some ''SELECT 1'')) = Inl StopIteration"
proof (intro conjI)
  show "supervisor_node (sample_state [HumanMessage (Str ''list the database tables'') (Some 0)]
       [''DATA.DB''] (Some ''SELECT 1''))
     = Inr (no_update\<lparr>u_active_worker := Some ''sql_worker''\<rparr>)"
    by (simp add: supervisor_node_def sample_state_def route_to_def endswith_def lower_def
      py_lower_char_def sql_words_def startswith_def Let_def)
  show "sql_worker_node ev (sample_state [HumanMessage (Str ''list the database tables'') (Some 0)]
       [''DATA.DB''] (Some ''SELECT 1'')) = Inl StopIteration"
    by (simp add: sql_worker_node_def sample_state_def first_db_file_def endswith_def)
  show "db_chart_worker_node ev (sample_state [HumanMessage (Str ''list the database tables'') (Some 0)]
       [''DATA.DB''] (Some ''SELECT 1'')) = Inl StopIteration"
    by (simp add: db_chart_worker_node_def sample_state_def first_db_file_def endswith_def)
qed

section \<open>The workers' tool-call contract\<close>




section \<open>The reducer on the history of a run\<close>

lemma assign_ids_append:
  "assign_ids n (xs @ ys) =
     (let (a, n1) = assign_ids n xs; (b, n2) = assign_ids n1 ys in (a @ b, n2))"
  by (induction xs arbitrary: n) (auto split: option.splits prod.splits)

lemma assign_ids_known:
  "\<forall>m \<in> set ms. msg_id m \<noteq> None \<Longrightarrow> assign_ids n ms = (ms, n)"
  by (induction ms) (auto split: option.splits)

lemma assign_ids_new:
  "\<forall>m \<in> set new. msg_id m = None \<Longrightarrow> assign_ids n new = (assigned n new, n + length new)"
  by (induction new arbitrary: n) (auto simp: assigned_def)

lemma msg_id_with_id [simp]: "msg_id (with_id j m) = j"
  by (cases m) simp_all

lemma msg_content_with_id [simp]: "msg_content (with_id j m) = msg_content m"
  by (cases m) simp_all

lemma has_tool_calls_with_id [simp]: "has_tool_calls (with_id j m) = has_tool_calls m"
  by (cases m) simp_all

lemma is_ToolMessage_with_id [simp]: "is_ToolMessage (with_id j m) = is_ToolMessage m"
  by (cases m) simp_all

lemma length_assigned [simp]: "length (assigned n new) = length new"
  by (simp add: assigned_def)

lemma assigned_Nil [simp]: "assigned n [] = []"
  by (simp add: assigned_def)

lemma assigned_Cons: "assigned n (m # ms) = with_id (Some n) m # assigned (Suc n) ms"
  by (simp add: assigned_def)

lemma assigned_eq_Nil [simp]: "assigned n new = [] \<longleftrightarrow> new = []"
  by (cases new) (simp_all add: assigned_Cons)

lemma ids_assigned: "map msg_id (assigned n new) = map Some [n ..< n + length new]"
proof (induction new arbitrary: n)
  case Nil
  then show ?case by simp
next
  case (Cons m ms)
  have "[n ..< n + length (m # ms)] = n # [Suc n ..< Suc n + length ms]"
    by (subst upt_rec) simp
  then show ?case using Cons.IH [of "Suc n"] by (simp add: assigned_Cons)
qed

lemma last_assigned:
  "new \<noteq> [] \<Longrightarrow> last (assigned n new) = with_id (Some (n + length new - 1)) (last new)"
proof (induction new arbitrary: n)
  case Nil
  then show ?case by simp
next
  case (Cons m ms)
  show ?case
  proof (cases ms)
    case Nil
    then show ?thesis by (simp add: assigned_Cons)
  next
    case (Cons a as)
    then show ?thesis using Cons.IH [of "Suc n"] by (simp add: assigned_Cons)
  qed
qed

lemma index_by_id_other:
  "key \<notin> msg_id ` set ms \<Longrightarrow> index_by_id k ms d key = d key"
  by (induction ms arbitrary: k d) auto

lemma index_by_id_nth:
  "distinct (map msg_id ms) \<Longrightarrow> i < length ms
     \<Longrightarrow> index_by_id k ms d (msg_id (ms ! i)) = Some (k + i)"
proof (induction ms arbitrary: k d i)
  case Nil
  then show ?case by simp
next
  case (Cons m ms)
  show ?case
  proof (cases i)
    case 0
    have "msg_id m \<notin> msg_id ` set ms" using Cons.prems by auto
    then show ?thesis using 0 by (simp add: index_by_id_other)
  next
    case (Suc j)
    then show ?thesis using Cons.IH [of j "Suc k"] Cons.prems by simp
  qed
qed

lemma merge_messages_same:
  "\<forall>m \<in> set xs. \<exists>i < length merged. by_id (msg_id m) = Some i \<and> merged ! i = m
     \<Longrightarrow> merge_messages merged by_id (xs @ ys) = merge_messages merged by_id ys"
proof (induction xs)
  case Nil
  then show ?case by simp
next
  case (Cons x xs)
  then obtain i where i: "i < length merged" "by_id (msg_id x) = Some i" "merged ! i = x"
    by auto
  then have "merged[i := x] = merged" by (metis list_update_id)
  then show ?case using Cons i by simp
qed

lemma merge_messages_new:
  "distinct (map msg_id ys) \<Longrightarrow> \<forall>m \<in> set ys. by_id (msg_id m) = None
     \<Longrightarrow> merge_messages merged by_id ys = merged @ ys"
proof (induction ys arbitrary: merged by_id)
  case Nil
  then show ?case by simp
next
  case (Cons y ys)
  have "\<forall>m \<in> set ys. (by_id(msg_id y \<mapsto> length merged)) (msg_id m) = None"
  proof
    fix m assume m: "m \<in> set ys"
    then have "msg_id m \<in> msg_id ` set ys" by (rule imageI)
    then have "msg_id m \<noteq> msg_id y" using Cons.prems by auto
    then show "(by_id(msg_id y \<mapsto> length merged)) (msg_id m) = None"
      using Cons.prems m by simp
  qed
  then have "merge_messages (merged @ [y]) (by_id(msg_id y \<mapsto> length merged)) ys
               = (merged @ [y]) @ ys"
    using Cons.IH Cons.prems by simp
  then show ?case using Cons.prems by simp
qed

lemma add_messages_run:
  assumes wf: "wf_ids n ms"
    and new: "\<forall>m \<in> set new. msg_id m = None"
    and old: "old = [] \<or> old = ms"
  shows "add_messages n ms (old @ new) = (ms @ assigned n new, n + length new)"
proof -
  have known: "\<forall>m \<in> set ms. msg_id m \<noteq> None" using wf by (auto simp: wf_ids_def)
  have dist: "distinct (map msg_id ms)" using wf by (simp add: wf_ids_def)
  have l: "assign_ids n ms = (ms, n)" using known by (rule assign_ids_known)
  have o: "assign_ids n old = (old, n)" using old known assign_ids_known by auto
  have r: "assign_ids n (old @ new) = (old @ assigned n new, n + length new)"
    by (simp add: assign_ids_append o assign_ids_new [OF new])
  let ?d = "index_by_id 0 ms Map.empty"
  have same: "\<forall>m \<in> set old. \<exists>i < length ms. ?d (msg_id m) = Some i \<and> ms ! i = m"
  proof
    fix m assume "m \<in> set old"
    then have "m \<in> set ms" using old by auto
    then obtain i where "i < length ms" "ms ! i = m" by (auto simp: in_set_conv_nth)
    then show "\<exists>i < length ms. ?d (msg_id m) = Some i \<and> ms ! i = m"
      using index_by_id_nth [OF dist, of i 0 Map.empty] by auto
  qed
  have fresh: "\<forall>m \<in> set (assigned n new). ?d (msg_id m) = None"
  proof
    fix m assume "m \<in> set (assigned n new)"
    then have "msg_id m \<in> set (map msg_id (assigned n new))" by simp
    then obtain j where j: "msg_id m = Some j" "n \<le> j" by (auto simp: ids_assigned)
    have "Some j \<notin> msg_id ` set ms" using wf j by (auto simp: wf_ids_def)
    then show "?d (msg_id m) = None" using j by (simp add: index_by_id_other)
  qed
  have d2: "distinct (map msg_id (assigned n new))" by (simp add: ids_assigned distinct_map)
  have "merge_messages ms ?d (old @ assigned n new) = ms @ assigned n new"
    using merge_messages_same [OF same] merge_messages_new [OF d2 fresh] by simp
  then show ?thesis by (simp add: add_messages_def l r)
qed

lemma wf_ids_append:
  assumes "wf_ids n ms"
  shows "wf_ids (n + length new) (ms @ assigned n new)"
proof -
  have a: "set (map msg_id ms) \<inter> set (map msg_id (assigned n new)) = {}"
    using assms by (auto simp: wf_ids_def ids_assigned)
  have b: "distinct (map msg_id (assigned n new))" by (simp add: ids_assigned distinct_map)
  have c: "\<forall>m \<in> set (assigned n new). \<exists>i < n + length new. msg_id m = Some i"
  proof
    fix m assume "m \<in> set (assigned n new)"
    then have "msg_id m \<in> set (map msg_id (assigned n new))" by simp
    then show "\<exists>i < n + length new. msg_id m = Some i" by (auto simp: ids_assigned)
  qed
  have d: "\<forall>m \<in> set ms. \<exists>i < n + length new. msg_id m = Some i"
    using assms by (fastforce simp: wf_ids_def)
  show ?thesis using assms a b c d unfolding wf_ids_def by (auto simp del: set_map)
qed

section \<open>The SQL worker after a tool result\<close>

lemma apply_update_messages:
  assumes "wf_ids n (messages s)"
    and "u_messages u = Some (old @ new)"
    and "\<forall>m \<in> set new. msg_id m = None"
    and "old = [] \<or> old = messages s"
  shows "apply_update u (s, n) =
     (s\<lparr>messages := messages s @ assigned n new,
        active_worker := (case u_active_worker u of None \<Rightarrow> active_worker s | Some w \<Rightarrow> w),
        last_sql_query := (case u_last_sql_query u of None \<Rightarrow> last_sql_query s | Some q \<Rightarrow> q),
        chart_code_generated :=
          (case u_chart_code_generated u of None \<Rightarrow> chart_code_generated s | Some b \<Rightarrow> Some b)\<rparr>,
      n + length new)"
  using add_messages_run [OF assms(1) assms(3) assms(4)] assms(2)
  by (simp add: apply_update_def)

lemma sql_worker_post_execution:
  assumes "first_db_file (file_paths state) = Inr db_file"
    and "get_sql_tools ev (os_path_join ''uploads'' db_file) = Inr ()"
    and "messages state \<noteq> []"
    and "is_ToolMessage (last (messages state))"
    and "content_lower (msg_content (hd (messages state))) = Inr user_query"
    and "has_chart_intent user_query"
  shows "sql_worker_node ev state =
     (if truthy (last_sql_query state)
      then Inr (no_update\<lparr>u_active_worker := Some ''db_chart_worker'',
                          u_messages := Some (messages state)\<rparr>)
      else Inr (no_update\<lparr>u_messages := Some (messages state @
             [AIMessage (Str ''Error: Unable to generate chart - SQL query not found.'')
                [] None])\<rparr>))"
  using assms by (simp add: sql_worker_node_def)

text \<open>
  Claim C4. In the SQL worker's post-execution phase (the latest message is a tool
  result), with chart intent in the original request and a stored SQL statement, the
  worker's update sets \<open>active_worker\<close> to the chart worker and has no entry for
  \<open>last_sql_query\<close>; merged into the state of a run it changes \<open>active_worker\<close> and
  nothing else, so the stored statement and the history stay as they are, and the
  worker's routing function sends control to the chart worker.
\<close>

theorem sql_chart_handoff:
  assumes "first_db_file (file_paths state) = Inr db_file"
    and "get_sql_tools ev (os_path_join ''uploads'' db_file) = Inr ()"
    and "messages state \<noteq> []"
    and "is_ToolMessage (last (messages state))"
    and "content_lower (msg_content (hd (messages state))) = Inr user_query"
    and "has_chart_intent user_query"
    and "truthy (last_sql_query state)"
    and "wf_ids n (messages state)"
  shows "\<exists>u. sql_worker_node ev state = Inr u
    \<and> u_active_worker u = Some ''db_chart_worker''
    \<and> u_last_sql_query u = None
    \<and> fst (apply_update u (state, n)) = state\<lparr>active_worker := ''db_chart_worker''\<rparr>
    \<and> last_sql_query (fst (apply_update u (state, n))) = last_sql_query state
    \<and> sql_router (fst (apply_update u (state, n))) = Inr N_db_chart_worker
    \<and> step ev N_sql_worker (state, n)
        = Inr (N_db_chart_worker, state\<lparr>active_worker := ''db_chart_worker''\<rparr>, n)"
proof -
  let ?u = "no_update\<lparr>u_active_worker := Some ''db_chart_worker'',
                      u_messages := Some (messages state)\<rparr>"
  have node: "sql_worker_node ev state = Inr ?u"
    using sql_worker_post_execution [OF assms(1-6)] assms(7) by simp
  have "apply_update ?u (state, n) =
     (state\<lparr>messages := messages state @ assigned n [], active_worker := ''db_chart_worker'',
        last_sql_query := last_sql_query state,
        chart_code_generated := chart_code_generated state\<rparr>, n + length ([] :: message list))"
    using apply_update_messages [of n state ?u "messages state" "[]"] assms(8)
    by (simp add: no_update_def)
  then have upd: "apply_update ?u (state, n) = (state\<lparr>active_worker := ''db_chart_worker''\<rparr>, n)"
    by simp
  have "\<not> has_tool_calls (last (messages state))"
    using assms(4) by (cases "last (messages state)") simp_all
  then have router: "sql_router (state\<lparr>active_worker := ''db_chart_worker''\<rparr>) = Inr N_db_chart_worker"
    using assms(3) by (simp add: sql_router_def)
  have st: "step ev N_sql_worker (state, n)
        = Inr (N_db_chart_worker, state\<lparr>active_worker := ''db_chart_worker''\<rparr>, n)"
    by (simp add: step_def node upd router)
  show ?thesis
    using node upd router st by (intro exI [of _ ?u]) (simp add: no_update_def)
qed

theorem sql_chart_handoff_witness:
  "step plain_text_env N_sql_worker
     (sample_state [HumanMessage (Str ''Plot the sales'') (Some 0),
        AIMessage (Str []) [sample_call] (Some 1), ToolMessage (Str ''rows'') (Some 2)]
        [''shop.db''] (Some ''SELECT 1''), 3)
   = Inr (N_db_chart_worker,
       (sample_state [HumanMessage (Str ''Plot the sales'') (Some 0),
          AIMessage (Str []) [sample_call] (Some 1), ToolMessage (Str ''rows'') (Some 2)]
          [''shop.db''] (Some ''SELECT 1''))\<lparr>active_worker := ''db_chart_worker''\<rparr>, 3)"
proof -
  let ?s = "sample_state [HumanMessage (Str ''Plot the sales'') (Some 0),
        AIMessage (Str []) [sample_call] (Some 1), ToolMessage (Str ''rows'') (Some 2)]
        [''shop.db''] (Some ''SELECT 1'')"
  have h1: "first_db_file (file_paths ?s) = Inr ''shop.db''"
    by (simp add: sample_state_def first_db_file_def endswith_def)
  have h2: "get_sql_tools plain_text_env (os_path_join ''uploads'' ''shop.db'') = Inr ()"
    by (simp add: get_sql_tools_def plain_text_env_def)
  have h3: "messages ?s \<noteq> []" by (simp add: sample_state_def)
  have h4: "is_ToolMessage (last (messages ?s))" by (simp add: sample_state_def)
  have h5: "content_lower (msg_content (hd (messages ?s))) = Inr ''plot the sales''"
    by (simp add: sample_state_def lower_def py_lower_char_def)
  have h6: "has_chart_intent ''plot the sales''"
    by (simp add: has_chart_intent_def chart_words_def startswith_def)
  have h7: "truthy (last_sql_query ?s)" by (simp add: sample_state_def)
  have h8: "wf_ids 3 (messages ?s)" by (simp add: sample_state_def wf_ids_def)
  from sql_chart_handoff [OF h1 h2 h3 h4 h5 h6 h7 h8] show ?thesis by blast
qed

text \<open>
  Claim C5. In the SQL worker's post-execution phase, with chart intent in the original
  request but no stored SQL statement, the worker raises nothing: it returns the history
  with one assistant message appended, the text of the error, and the visit of the node
  appends that message to the state and ends the branch.
\<close>

theorem chart_intent_without_sql_is_reported:
  assumes "first_db_file (file_paths state) = Inr db_file"
    and "get_sql_tools ev (os_path_join ''uploads'' db_file) = Inr ()"
    and "messages state \<noteq> []"
    and "is_ToolMessage (last (messages state))"
    and "content_lower (msg_content (hd (messages state))) = Inr user_query"
    and "has_chart_intent user_query"
    and "\<not> truthy (last_sql_query state)"
    and "active_worker state = ''sql_worker''"
    and "wf_ids n (messages state)"
  shows "sql_worker_node ev state =
       Inr (no_update\<lparr>u_messages := Some (messages state @
         [AIMessage (Str ''Error: Unable to generate chart - SQL query not found.'') [] None])\<rparr>)
    \<and> step ev N_sql_worker (state, n) =
       Inr (END,
            state\<lparr>messages := messages state @
              [AIMessage (Str ''Error: Unable to generate chart - SQL query not found.'') []
                 (Some n)]\<rparr>,
            Suc n)"
proof -
  let ?e = "AIMessage (Str ''Error: Unable to generate chart - SQL query not found.'') []"
  let ?u = "no_update\<lparr>u_messages := Some (messages state @ [?e None])\<rparr>"
  have node: "sql_worker_node ev state = Inr ?u"
    using sql_worker_post_execution [OF assms(1-6)] assms(7) by simp
  have "apply_update ?u (state, n) =
     (state\<lparr>messages := messages state @ assigned n [?e None],
        active_worker := active_worker state,
        last_sql_query := last_sql_query state,
        chart_code_generated := chart_code_generated state\<rparr>, n + length [?e None])"
    using apply_update_messages [of n state ?u "messages state" "[?e None]"] assms(9)
    by (simp add: no_update_def)
  then have upd: "apply_update ?u (state, n) =
     (state\<lparr>messages := messages state @ [?e (Some n)]\<rparr>, Suc n)"
    by (simp add: assigned_Cons)
  have router: "sql_router (state\<lparr>messages := messages state @ [?e (Some n)]\<rparr>) = Inr END"
    using assms(8) by (simp add: sql_router_def)
  have st: "step ev N_sql_worker (state, n) =
       Inr (END, state\<lparr>messages := messages state @ [?e (Some n)]\<rparr>, Suc n)"
    by (simp add: step_def node upd router)
  show ?thesis using node st by simp
qed

theorem chart_intent_without_sql_is_reported_witness:
  "step plain_text_env N_sql_worker
     (sample_state [HumanMessage (Str ''Plot the sales'') (Some 0),
        AIMessage (Str []) [sample_call] (Some 1), ToolMessage (Str ''rows'') (Some 2)]
        [''shop.db''] None, 3)
   = Inr (END,
       (sample_state [HumanMessage (Str ''Plot the sales'') (Some 0),
          AIMessage (Str []) [sample_call] (Some 1), ToolMessage (Str ''rows'') (Some 2)]
          [''shop.db''] None)
         \<lparr>messages := [HumanMessage (Str ''Plot the sales'') (Some 0),
            AIMessage (Str []) [sample_call] (Some 1), ToolMessage (Str ''rows'') (Some 2),
            AIMessage (Str ''Error: Unable to generate chart - SQL query not found.'') []
              (Some 3)]\<rparr>, 4)"
proof -
  let ?s = "sample_state [HumanMessage (Str ''Plot the sales'') (Some 0),
        AIMessage (Str []) [sample_call] (Some 1), ToolMessage (Str ''rows'') (Some 2)]
        [''shop.db''] None"
  have h1: "first_db_file (file_paths ?s) = Inr ''shop.db''"
    by (simp add: sample_state_def first_db_file_def endswith_def)
  have h2: "get_sql_tools plain_text_env (os_path_join ''uploads'' ''shop.db'') = Inr ()"
    by (simp add: get_sql_tools_def plain_text_env_def)
  have h3: "messages ?s \<noteq> []" by (simp add: sample_state_def)
  have h4: "is_ToolMessage (last (messages ?s))" by (simp add: sample_state_def)
  have h5: "content_lower (msg_content (hd (messages ?s))) = Inr ''plot the sales''"
    by (simp add: sample_state_def lower_def py_lower_char_def)
  have h6: "has_chart_intent ''plot the sales''"
    by (simp add: has_chart_intent_def chart_words_def startswith_def)
  have h7: "\<not> truthy (last_sql_query ?s)" by (simp add: sample_state_def)
  have h8: "active_worker ?s = ''sql_worker''" by (simp add: sample_state_def)
  have h9: "wf_ids 3 (messages ?s)" by (simp add: sample_state_def wf_ids_def)
  have m: "messages ?s @ [AIMessage (Str ''Error: Unable to generate chart - SQL query not found.'') [] (Some 3)]
    = [HumanMessage (Str ''Plot the sales'') (Some 0),
            AIMessage (Str []) [sample_call] (Some 1), ToolMessage (Str ''rows'') (Some 2),
            AIMessage (Str ''Error: Unable to generate chart - SQL query not found.'') []
              (Some 3)]"
    by (simp add: sample_state_def)
  from chart_intent_without_sql_is_reported [OF h1 h2 h3 h4 h5 h6 h7 h8 h9] m
  show ?thesis by simp
qed

subsection \<open>The keyword tests\<close>

lemma sql_worker_after_tool_result:
  assumes "first_db_file (file_paths state) = Inr db_file"
    and "get_sql_tools ev (os_path_join ''uploads'' db_file) = Inr ()"
    and "messages state \<noteq> []"
    and "is_ToolMessage (last (messages state))"
    and "content_lower (msg_content (hd (messages state))) = Inr user_query"
  shows "sql_worker_node ev state =
     (if has_chart_intent user_query \<and> truthy (last_sql_query state)
      then Inr (no_update\<lparr>u_active_worker := Some ''db_chart_worker'',
                          u_messages := Some (messages state)\<rparr>)
      else if has_chart_intent user_query \<and> \<not> truthy (last_sql_query state)
      then Inr (no_update\<lparr>u_messages := Some (messages state @
             [AIMessage (Str ''Error: Unable to generate chart - SQL query not found.'')
                [] None])\<rparr>)
      else Inr (no_update\<lparr>u_messages := Some [response_message (llm ev SqlSummarize state)]\<rparr>))"
  using assms by (simp add: sql_worker_node_def)

lemma set_chart_words:
  "set chart_words = {''plot'', ''chart'', ''graph'', ''visualize'', ''draw'', ''histogram'',
     ''bar'', ''line'', ''scatter'', ''pie''}"
  by (simp add: chart_words_def)

lemma set_sql_words: "set sql_words = {''sql'', ''database'', ''table'', ''query''}"
  by (simp add: sql_words_def)

lemma iff_by_cases:
  assumes "c \<Longrightarrow> a" and "\<not> c \<Longrightarrow> \<not> a" and "c \<longleftrightarrow> b"
  shows "a \<longleftrightarrow> b"
  using assms by blast

text \<open>
  Claim C10. Both keyword tests are substring tests on the lower-cased text, no more and
  no less. The SQL worker, after a tool result and with a stored SQL statement, hands
  over to the chart worker if and only if the lower-cased text of the first message
  contains one of the chart words anywhere, also inside a longer word; the supervisor,
  given a database file, routes to the SQL worker if and only if the lower-cased text of
  the latest message contains one of the SQL words anywhere.
\<close>

theorem keyword_tests_are_substring_tests:
  assumes "first_db_file (file_paths state) = Inr db_file"
    and "get_sql_tools ev (os_path_join ''uploads'' db_file) = Inr ()"
    and "messages state \<noteq> []"
    and "msg_content (hd (messages state)) = Str request"
    and "is_ToolMessage (last (messages state))"
    and "truthy (last_sql_query state)"
    and "messages state' \<noteq> []"
    and "text_of_content (msg_content (last (messages state'))) = Inr latest"
    and "\<exists>f \<in> set (file_paths state'). \<exists>stem. lower f = stem @ ''.db''"
  shows "((\<exists>u. sql_worker_node ev state = Inr u \<and> u_active_worker u = Some ''db_chart_worker'')
          \<longleftrightarrow> (\<exists>w \<in> {''plot'', ''chart'', ''graph'', ''visualize'', ''draw'', ''histogram'',
                       ''bar'', ''line'', ''scatter'', ''pie''}.
                \<exists>pre post. lower request = pre @ w @ post))
    \<and> (supervisor_node state' = Inr (no_update\<lparr>u_active_worker := Some ''sql_worker''\<rparr>)
          \<longleftrightarrow> (\<exists>w \<in> {''sql'', ''database'', ''table'', ''query''}.
                \<exists>pre post. lower latest = pre @ w @ post))"
proof (rule conjI)
  have cl: "content_lower (msg_content (hd (messages state))) = Inr (lower request)"
    using assms(4) by simp
  note node = sql_worker_after_tool_result [OF assms(1,2,3,5) cl]
  show "(\<exists>u. sql_worker_node ev state = Inr u \<and> u_active_worker u = Some ''db_chart_worker'')
          \<longleftrightarrow> (\<exists>w \<in> {''plot'', ''chart'', ''graph'', ''visualize'', ''draw'', ''histogram'',
                       ''bar'', ''line'', ''scatter'', ''pie''}.
                \<exists>pre post. lower request = pre @ w @ post)"
  proof (rule iff_by_cases [where c = "has_chart_intent (lower request)"])
    assume "has_chart_intent (lower request)"
    then have "sql_worker_node ev state
        = Inr (no_update\<lparr>u_active_worker := Some ''db_chart_worker'',
                           u_messages := Some (messages state)\<rparr>)"
      using node assms(6) by simp
    then show "\<exists>u. sql_worker_node ev state = Inr u \<and> u_active_worker u = Some ''db_chart_worker''"
      by simp
  next
    assume "\<not> has_chart_intent (lower request)"
    then have "sql_worker_node ev state
        = Inr (no_update\<lparr>u_messages := Some [response_message (llm ev SqlSummarize state)]\<rparr>)"
      using node by simp
    then show "\<not> (\<exists>u. sql_worker_node ev state = Inr u
                 \<and> u_active_worker u = Some ''db_chart_worker'')"
      by (simp add: no_update_def)
  next
    show "has_chart_intent (lower request)
          \<longleftrightarrow> (\<exists>w \<in> {''plot'', ''chart'', ''graph'', ''visualize'', ''draw'', ''histogram'',
                       ''bar'', ''line'', ''scatter'', ''pie''}.
                \<exists>pre post. lower request = pre @ w @ post)"
      unfolding has_chart_intent_iff set_chart_words ..
  qed
next
  let ?kw = "list_ex (\<lambda>word. str_in word (lower latest)) sql_words"
  have db: "list_ex (\<lambda>f. endswith (lower f) ''.db'') (file_paths state')"
    using assms(9) by (simp add: list_ex_iff endswith_iff)
  have node: "supervisor_node state' =
     (if ?kw then route_to ''sql_worker''
      else if list_ex (\<lambda>f. endswith (lower f) ''.csv'') (file_paths state')
      then route_to ''csv_worker'' else route_to ''general'')"
    using supervisor_node_text [OF assms(7,8)] db by simp
  show "supervisor_node state' = Inr (no_update\<lparr>u_active_worker := Some ''sql_worker''\<rparr>)
          \<longleftrightarrow> (\<exists>w \<in> {''sql'', ''database'', ''table'', ''query''}.
                \<exists>pre post. lower latest = pre @ w @ post)"
  proof (rule iff_by_cases [where c = ?kw])
    assume ?kw
    then show "supervisor_node state' = Inr (no_update\<lparr>u_active_worker := Some ''sql_worker''\<rparr>)"
      using node by (simp add: route_to_def)
  next
    assume "\<not> ?kw"
    then show "supervisor_node state' \<noteq> Inr (no_update\<lparr>u_active_worker := Some ''sql_worker''\<rparr>)"
      using node by (simp add: route_to_def no_update_def)
  next
    have "?kw \<longleftrightarrow> (\<exists>w \<in> set sql_words. \<exists>pre post. lower latest = pre @ w @ post)"
      by (simp add: list_ex_iff str_in_iff)
    then show "?kw \<longleftrightarrow> (\<exists>w \<in> {''sql'', ''database'', ''table'', ''query''}.
                \<exists>pre post. lower latest = pre @ w @ post)"
      unfolding set_sql_words .
  qed
qed

theorem keyword_tests_are_substring_tests_witness:
  "(\<exists>u. sql_worker_node plain_text_env
          (sample_state [HumanMessage (Str ''A stable for the Barbecue'') (Some 0),
             AIMessage (Str []) [sample_call] (Some 1), ToolMessage (Str ''rows'') (Some 2)]
             [''farm.db''] (Some ''SELECT 1'')) = Inr u
        \<and> u_active_worker u = Some ''db_chart_worker'')
   \<and> supervisor_node (sample_state [HumanMessage (Str ''A stable for the Barbecue'') (Some 0)]
        [''farm.db''] None) = Inr (no_update\<lparr>u_active_worker := Some ''sql_worker''\<rparr>)"
proof -
  let ?t = "''A stable for the Barbecue''"
  let ?s = "sample_state [HumanMessage (Str ?t) (Some 0),
             AIMessage (Str []) [sample_call] (Some 1), ToolMessage (Str ''rows'') (Some 2)]
             [''farm.db''] (Some ''SELECT 1'')"
  let ?s' = "sample_state [HumanMessage (Str ?t) (Some 0)] [''farm.db''] None"
  have h1: "first_db_file (file_paths ?s) = Inr ''farm.db''"
    by (simp add: sample_state_def first_db_file_def endswith_def)
  have h2: "get_sql_tools plain_text_env (os_path_join ''uploads'' ''farm.db'') = Inr ()"
    by (simp add: get_sql_tools_def plain_text_env_def)
  have h3: "messages ?s \<noteq> []" by (simp add: sample_state_def)
  have h4: "msg_content (hd (messages ?s)) = Str ?t" by (simp add: sample_state_def)
  have h5: "is_ToolMessage (last (messages ?s))" by (simp add: sample_state_def)
  have h6: "truthy (last_sql_query ?s)" by (simp add: sample_state_def)
  have h7: "messages ?s' \<noteq> []" by (simp add: sample_state_def)
  have h8: "text_of_content (msg_content (last (messages ?s'))) = Inr ?t"
    by (simp add: sample_state_def)
  have "lower ''farm.db'' = ''farm'' @ ''.db''" by (simp add: lower_def py_lower_char_def)
  then have h9: "\<exists>f \<in> set (file_paths ?s'). \<exists>stem. lower f = stem @ ''.db''"
    by (simp add: sample_state_def)
  have bar: "lower ?t = ''a stable for the '' @ ''bar'' @ ''becue''"
    by (simp add: lower_def py_lower_char_def)
  have tab: "lower ?t = ''a s'' @ ''table'' @ '' for the barbecue''"
    by (simp add: lower_def py_lower_char_def)
  have c: "\<exists>w \<in> {''plot'', ''chart'', ''graph'', ''visualize'', ''draw'', ''histogram'',
                       ''bar'', ''line'', ''scatter'', ''pie''}.
                \<exists>pre post. lower ?t = pre @ w @ post"
  proof (rule bexI [where x = "''bar''"])
    show "\<exists>pre post. lower ?t = pre @ ''bar'' @ post"
      by (rule exI [of _ "''a stable for the ''"], rule exI [of _ "''becue''"], rule bar)
    show "''bar'' \<in> {''plot'', ''chart'', ''graph'', ''visualize'', ''draw'', ''histogram'',
                       ''bar'', ''line'', ''scatter'', ''pie''}"
      by simp
  qed
  have s: "\<exists>w \<in> {''sql'', ''database'', ''table'', ''query''}.
                \<exists>pre post. lower ?t = pre @ w @ post"
  proof (rule bexI [where x = "''table''"])
    show "\<exists>pre post. lower ?t = pre @ ''table'' @ post"
      by (rule exI [of _ "''a s''"], rule exI [of _ "'' for the barbecue''"], rule tab)
    show "''table'' \<in> {''sql'', ''database'', ''table'', ''query''}" by simp
  qed
  note th = keyword_tests_are_substring_tests [OF h1 h2 h3 h4 h5 h6 h7 h8 h9]
  show ?thesis
    using th [THEN conjunct1, THEN iffD2, OF c] th [THEN conjunct2, THEN iffD2, OF s]
    by (rule conjI)
qed

section \<open>The states of a run\<close>

lemma appendsI:
  "u_messages u = Some (old @ new) \<Longrightarrow> old = [] \<or> old = messages s
     \<Longrightarrow> \<forall>m \<in> set new. msg_id m = None \<Longrightarrow> appends s u"
  unfolding appends_def by blast

lemma appends_new:
  "u_messages u = Some new \<Longrightarrow> \<forall>m \<in> set new. msg_id m = None \<Longrightarrow> appends s u"
  using appendsI [of u "[]" new s] by simp

lemma msg_id_response_message [simp]: "msg_id (response_message r) = None"
  by (simp add: response_message_def)

lemma supervisor_node_appends: "supervisor_node s = Inr u \<Longrightarrow> appends s u"
  by (auto simp: supervisor_node_def route_to_def appends_def no_update_def Let_def
      split: if_splits sum.splits bool.splits)

lemma csv_worker_node_appends: "csv_worker_node ev s = Inr u \<Longrightarrow> appends s u"
  unfolding csv_worker_node_def
  by (auto simp: Let_def intro!: appends_new
      split: if_splits message.splits content.splits option.splits)

lemma sql_worker_node_appends:
  assumes "sql_worker_node ev s = Inr u"
  shows "appends s u"
proof -
  obtain f where f: "first_db_file (file_paths s) = Inr f"
    using assms by (auto simp: sql_worker_node_def split: sum.splits)
  have g: "get_sql_tools ev (os_path_join ''uploads'' f) = Inr ()"
    using assms f by (auto simp: sql_worker_node_def split: sum.splits)
  have ne: "messages s \<noteq> []"
    using assms f g by (auto simp: sql_worker_node_def split: if_splits)
  obtain q where q: "content_lower (msg_content (hd (messages s))) = Inr q"
    using assms f g ne by (auto simp: sql_worker_node_def split: sum.splits)
  show ?thesis
  proof (cases "is_ToolMessage (last (messages s))")
    case True
    then consider
        "u = no_update\<lparr>u_active_worker := Some ''db_chart_worker'',
                       u_messages := Some (messages s)\<rparr>"
      | "u = no_update\<lparr>u_messages := Some (messages s @
             [AIMessage (Str ''Error: Unable to generate chart - SQL query not found.'')
                [] None])\<rparr>"
      | "u = no_update\<lparr>u_messages := Some [response_message (llm ev SqlSummarize s)]\<rparr>"
      using assms f g ne q by (auto simp: sql_worker_node_def split: if_splits)
    then show ?thesis
    proof cases
      case 1
      then show ?thesis using appendsI [of u "messages s" "[]" s] by simp
    next
      case 2
      then show ?thesis
        using appendsI [of u "messages s" "[AIMessage (Str ''Error: Unable to generate chart - SQL query not found.'') [] None]" s]
        by simp
    next
      case 3
      then show ?thesis by (auto intro!: appends_new)
    qed
  next
    case False
    then have "u_messages u = Some [response_message (llm ev SqlGenerate s)]"
      using assms f g ne q
      by (auto simp: sql_worker_node_def Let_def split: list.splits option.splits)
    then show ?thesis by (auto intro!: appends_new)
  qed
qed

lemma db_chart_worker_node_appends: "db_chart_worker_node ev s = Inr u \<Longrightarrow> appends s u"
  unfolding db_chart_worker_node_def
  by (auto simp: Let_def intro!: appends_new split: if_splits sum.splits)

lemma tool_node_ids: "tool_node ev s = Inr ms \<Longrightarrow> \<forall>m \<in> set ms. msg_id m = None"
  by (auto simp: tool_node_def split: if_splits message.splits)

lemma tools_node_appends: "tools_node ev s = Inr u \<Longrightarrow> appends s u"
  unfolding tools_node_def
  by (auto intro!: appends_new dest: tool_node_ids split: sum.splits)

lemma call_sql_tools_appends: "call_sql_tools ev s = Inr u \<Longrightarrow> appends s u"
  unfolding call_sql_tools_def
  by (auto intro!: appends_new dest: tool_node_ids split: sum.splits)

lemma node_fn_appends:
  assumes "node_fn ev nd s = Inr u"
  shows "appends s u"
proof (cases nd)
  case N_supervisor
  then show ?thesis using assms by (simp add: supervisor_node_appends)
next
  case N_csv_worker
  then show ?thesis using assms by (simp add: csv_worker_node_appends)
next
  case N_sql_worker
  then show ?thesis using assms by (simp add: sql_worker_node_appends)
next
  case N_db_chart_worker
  then show ?thesis using assms by (simp add: db_chart_worker_node_appends)
next
  case N_csv_tools
  then show ?thesis using assms by (simp add: tools_node_appends)
next
  case N_sql_tools
  then show ?thesis using assms by (simp add: call_sql_tools_appends)
next
  case N_db_chart_tools
  then show ?thesis using assms by (simp add: tools_node_appends)
next
  case END
  then show ?thesis using assms by (auto simp: appends_def no_update_def)
qed

lemma apply_update_appends:
  assumes "wf_ids n (messages s)" and "appends s u"
  shows "\<exists>new. messages (fst (apply_update u (s, n))) = messages s @ assigned n new
           \<and> snd (apply_update u (s, n)) = n + length new"
proof (cases "u_messages u")
  case None
  then have "messages (fst (apply_update u (s, n))) = messages s @ assigned n []
           \<and> snd (apply_update u (s, n)) = n + length ([] :: message list)"
    by (simp add: apply_update_def)
  then show ?thesis by blast
next
  case (Some ms)
  then obtain old new where on: "u_messages u = Some (old @ new)" "old = [] \<or> old = messages s"
      "\<forall>m \<in> set new. msg_id m = None"
    using assms(2) unfolding appends_def by auto
  show ?thesis
    using apply_update_messages [OF assms(1) on(1) on(3) on(2)] by (intro exI [of _ new]) simp
qed

lemma step_appends:
  assumes "wf_ids (snd st) (messages (fst st))" and "step ev nd st = Inr (nd', st')"
  shows "\<exists>new. messages (fst st') = messages (fst st) @ assigned (snd st) new
           \<and> snd st' = snd st + length new"
proof -
  obtain u where u: "node_fn ev nd (fst st) = Inr u" and st': "st' = apply_update u st"
    using assms(2) by (auto simp: step_def Let_def split: sum.splits)
  have "appends (fst st) u" using u by (rule node_fn_appends)
  then show ?thesis
    using apply_update_appends [of "snd st" "fst st" u] assms(1) st' by simp
qed

lemma initial_run_state_query:
  "initial_run_state (initial_state files prompt) =
     ((initial_state files prompt)\<lparr>messages := [HumanMessage (Str prompt) (Some 0)]\<rparr>, 1)"
  by (simp add: initial_run_state_def initial_state_def add_messages_def)

lemma reachable_history:
  assumes "reachable input x" and "input = initial_state files prompt"
  shows "wf_ids (snd (snd x)) (messages (fst (snd x)))
    \<and> (\<exists>rest. messages (fst (snd x)) = HumanMessage (Str prompt) (Some 0) # rest)"
  using assms
proof (induction rule: reachable.induct)
  case start
  then show ?case by (simp add: initial_run_state_query wf_ids_def)
next
  case (visit nd st ev nd' st')
  then have wf: "wf_ids (snd st) (messages (fst st))"
    and hd: "\<exists>rest. messages (fst st) = HumanMessage (Str prompt) (Some 0) # rest"
    by simp_all
  obtain new where new: "messages (fst st') = messages (fst st) @ assigned (snd st) new"
      "snd st' = snd st + length new"
    using step_appends [OF wf visit.hyps(2)] by blast
  have "wf_ids (snd st') (messages (fst st'))"
    using wf_ids_append [OF wf, of new] new by simp
  moreover have "\<exists>rest. messages (fst st') = HumanMessage (Str prompt) (Some 0) # rest"
    using hd new by auto
  ultimately show ?case by simp
qed

lemma run_graph_reachable:
  "reachable input (nd, st) \<Longrightarrow> fst (run_graph evs fuel k nd st) = Inr final
     \<Longrightarrow> \<exists>n. reachable input (END, (final, n))"
proof (induction fuel arbitrary: k nd st)
  case 0
  then have "nd = END" "final = fst st" by (auto split: if_splits)
  then have "reachable input (END, (final, snd st))" using "0.prems"(1) by simp
  then show ?case ..
next
  case (Suc fuel)
  show ?case
  proof (cases "nd = END")
    case True
    then have "final = fst st" using Suc.prems(2) by simp
    then have "reachable input (END, (final, snd st))" using Suc.prems(1) True by simp
    then show ?thesis ..
  next
    case False
    then obtain nd' st' where s: "step (evs k) nd st = Inr (nd', st')"
      using Suc.prems(2) by (auto split: sum.splits)
    then have "reachable input (nd', st')" using Suc.prems(1) reachable.visit by blast
    moreover have "fst (run_graph evs fuel (Suc k) nd' st') = Inr final"
      using Suc.prems(2) False s by simp
    ultimately show ?thesis using Suc.IH by blast
  qed
qed

text \<open>
  Claim C7. In every state a run of \<open>process_query\<close> can reach, the history is not
  empty and its first message is the user's message with the prompt as its text (and the
  id it got when the input was written). Every visit of a node, the supervisor or a
  worker or a tool node, only appends to the history; and the history a run ends with
  still starts with that message.
\<close>

theorem first_message_invariant:
  assumes "reachable (initial_state files prompt) (nd, st)"
  shows "messages (fst st) \<noteq> []
    \<and> hd (messages (fst st)) = HumanMessage (Str prompt) (Some 0)
    \<and> (\<forall>ev nd' st'. step ev nd st = Inr (nd', st')
          \<longrightarrow> (\<exists>new. messages (fst st') = messages (fst st) @ new))
    \<and> (\<forall>evs limit k final. fst (run_graph evs limit k nd st) = Inr final
          \<longrightarrow> messages final \<noteq> [] \<and> hd (messages final) = HumanMessage (Str prompt) (Some 0))"
proof -
  have h: "wf_ids (snd st) (messages (fst st))
    \<and> (\<exists>rest. messages (fst st) = HumanMessage (Str prompt) (Some 0) # rest)"
    using reachable_history [OF assms refl] by simp
  have a: "messages (fst st) \<noteq> [] \<and> hd (messages (fst st)) = HumanMessage (Str prompt) (Some 0)"
    using h by auto
  have b: "\<forall>ev nd' st'. step ev nd st = Inr (nd', st')
          \<longrightarrow> (\<exists>new. messages (fst st') = messages (fst st) @ new)"
    using step_appends h by blast
  have c: "\<forall>evs limit k final. fst (run_graph evs limit k nd st) = Inr final
          \<longrightarrow> messages final \<noteq> [] \<and> hd (messages final) = HumanMessage (Str prompt) (Some 0)"
  proof (intro allI impI)
    fix evs limit k final
    assume "fst (run_graph evs limit k nd st) = Inr final"
    then obtain n where "reachable (initial_state files prompt) (END, (final, n))"
      using run_graph_reachable [OF assms] by blast
    then have "\<exists>rest. messages final = HumanMessage (Str prompt) (Some 0) # rest"
      using reachable_history [OF _ refl] by fastforce
    then show "messages final \<noteq> [] \<and> hd (messages final) = HumanMessage (Str prompt) (Some 0)"
      by auto
  qed
  show ?thesis using a b c by blast
qed

section \<open>The step limit\<close>

lemma run_graph_visits: "snd (run_graph evs fuel k nd st) \<le> k + fuel"
proof (induction fuel arbitrary: k nd st)
  case 0
  then show ?case by simp
next
  case (Suc fuel)
  show ?case
  proof (cases "nd = END")
    case True
    then show ?thesis by simp
  next
    case False
    show ?thesis
    proof (cases "step (evs k) nd st")
      case (Inl e)
      then show ?thesis using False by simp
    next
      case (Inr p)
      obtain nd' st' where p: "p = (nd', st')" by (cases p)
      have "snd (run_graph evs fuel (Suc k) nd' st') \<le> Suc k + fuel" by (rule Suc.IH)
      then show ?thesis using False Inr p by simp
    qed
  qed
qed

lemma csv_worker_node_tool_call:
  assumes "r_tool_calls (llm ev CsvGenerate s) \<noteq> []"
    and "r_tool_calls (llm ev CsvSummarize s) \<noteq> []"
    and "messages s \<noteq> []"
    and "\<forall>c i. last (messages s) = ToolMessage c i \<longrightarrow> (\<exists>t. c = Str t)"
  shows "\<exists>r. csv_worker_node ev s = Inr (no_update\<lparr>u_messages := Some [response_message r]\<rparr>)
           \<and> r_tool_calls r \<noteq> []"
proof (cases "last (messages s)")
  case (HumanMessage c i)
  then show ?thesis using assms by (auto simp: csv_worker_node_def)
next
  case (AIMessage c tcs i)
  then show ?thesis using assms by (auto simp: csv_worker_node_def)
next
  case (ToolMessage c i)
  then obtain t where "c = Str t" using assms(4) by blast
  then show ?thesis
    using assms ToolMessage
    by (auto simp: csv_worker_node_def Let_def split: option.splits)
qed

lemma csv_worker_step:
  assumes "r_tool_calls (llm ev CsvGenerate (fst st)) \<noteq> []"
    and "r_tool_calls (llm ev CsvSummarize (fst st)) \<noteq> []"
    and "wf_ids (snd st) (messages (fst st))"
    and "messages (fst st) \<noteq> []"
    and "\<forall>c i. last (messages (fst st)) = ToolMessage c i \<longrightarrow> (\<exists>t. c = Str t)"
  shows "\<exists>st'. step ev N_csv_worker st = Inr (N_csv_tools, st')
           \<and> wf_ids (snd st') (messages (fst st')) \<and> messages (fst st') \<noteq> []
           \<and> has_tool_calls (last (messages (fst st')))"
proof -
  obtain r where r: "csv_worker_node ev (fst st)
        = Inr (no_update\<lparr>u_messages := Some [response_message r]\<rparr>)" "r_tool_calls r \<noteq> []"
    using csv_worker_node_tool_call [OF assms(1,2,4,5)] by blast
  let ?u = "no_update\<lparr>u_messages := Some [response_message r]\<rparr>"
  let ?st' = "apply_update ?u st"
  have "apply_update ?u (fst st, snd st) =
     ((fst st)\<lparr>messages := messages (fst st) @ assigned (snd st) [response_message r],
        active_worker := active_worker (fst st),
        last_sql_query := last_sql_query (fst st),
        chart_code_generated := chart_code_generated (fst st)\<rparr>,
      snd st + length [response_message r])"
    using apply_update_messages [of "snd st" "fst st" ?u "[]" "[response_message r]"] assms(3)
    by (simp add: no_update_def)
  then have ms: "messages (fst ?st') = messages (fst st) @ assigned (snd st) [response_message r]"
    and n: "snd ?st' = snd st + length [response_message r]"
    by simp_all
  have wf: "wf_ids (snd ?st') (messages (fst ?st'))"
    using wf_ids_append [OF assms(3), of "[response_message r]"] ms n by simp
  have l: "last (messages (fst ?st')) = with_id (Some (snd st)) (response_message r)"
    using ms by (simp add: assigned_Cons)
  have tc: "has_tool_calls (last (messages (fst ?st')))"
    using l r(2) by (simp add: response_message_def)
  have ne: "messages (fst ?st') \<noteq> []" using ms by simp
  have "step ev N_csv_worker st = Inr (N_csv_tools, ?st')"
    using r(1) tc ne by (simp add: step_def tool_edge_def)
  then show ?thesis using wf ne tc by blast
qed

lemma csv_tools_step:
  assumes "\<forall>tc. \<exists>t. run_tool ev tc = Str t"
    and "wf_ids (snd st) (messages (fst st))"
    and "messages (fst st) \<noteq> []"
    and "has_tool_calls (last (messages (fst st)))"
  shows "\<exists>st'. step ev N_csv_tools st = Inr (N_csv_worker, st')
           \<and> wf_ids (snd st') (messages (fst st')) \<and> messages (fst st') \<noteq> []
           \<and> (\<forall>c i. last (messages (fst st')) = ToolMessage c i \<longrightarrow> (\<exists>t. c = Str t))"
proof -
  obtain c tcs i where last: "last (messages (fst st)) = AIMessage c tcs i" and tcs: "tcs \<noteq> []"
    using assms(4) by (cases "last (messages (fst st))") auto
  let ?new = "map (\<lambda>tc. ToolMessage (run_tool ev tc) None) tcs"
  let ?u = "no_update\<lparr>u_messages := Some ?new\<rparr>"
  let ?st' = "apply_update ?u st"
  have node: "tools_node ev (fst st) = Inr ?u"
    using last assms(3) by (simp add: tools_node_def tool_node_def)
  have "apply_update ?u (fst st, snd st) =
     ((fst st)\<lparr>messages := messages (fst st) @ assigned (snd st) ?new,
        active_worker := active_worker (fst st),
        last_sql_query := last_sql_query (fst st),
        chart_code_generated := chart_code_generated (fst st)\<rparr>,
      snd st + length ?new)"
    using apply_update_messages [of "snd st" "fst st" ?u "[]" ?new] assms(2)
    by (simp add: no_update_def)
  then have ms: "messages (fst ?st') = messages (fst st) @ assigned (snd st) ?new"
    and n: "snd ?st' = snd st + length ?new"
    by simp_all
  have wf: "wf_ids (snd ?st') (messages (fst ?st'))"
    using wf_ids_append [OF assms(2), of ?new] ms n by simp
  have ne: "messages (fst ?st') \<noteq> []" using ms tcs by simp
  have "last (messages (fst ?st')) = last (assigned (snd st) ?new)"
    using ms tcs by simp
  also have "\<dots> = with_id (Some (snd st + length ?new - 1)) (last ?new)"
    using tcs by (simp add: last_assigned)
  also have "\<dots> = ToolMessage (run_tool ev (last tcs)) (Some (snd st + length ?new - 1))"
    using tcs by (simp add: last_map)
  finally have l: "last (messages (fst ?st'))
      = ToolMessage (run_tool ev (last tcs)) (Some (snd st + length ?new - 1))" .
  have str: "\<forall>c i. last (messages (fst ?st')) = ToolMessage c i \<longrightarrow> (\<exists>t. c = Str t)"
    using l assms(1) by auto
  have "step ev N_csv_tools st = Inr (N_csv_worker, ?st')"
    using node by (simp add: step_def)
  then show ?thesis using wf ne str by blast
qed

lemma csv_loop_exhausts:
  assumes "\<forall>k p s. r_tool_calls (llm (evs k) p s) \<noteq> []"
    and "\<forall>k tc. \<exists>t. run_tool (evs k) tc = Str t"
  shows "wf_ids (snd st) (messages (fst st)) \<Longrightarrow> messages (fst st) \<noteq> []
    \<Longrightarrow> (nd = N_csv_worker
          \<and> (\<forall>c i. last (messages (fst st)) = ToolMessage c i \<longrightarrow> (\<exists>t. c = Str t)))
        \<or> (nd = N_csv_tools \<and> has_tool_calls (last (messages (fst st))))
    \<Longrightarrow> run_graph evs fuel k nd st = (Inl GraphRecursionError, k + fuel)"
proof (induction fuel arbitrary: k nd st)
  case 0
  then show ?case by auto
next
  case (Suc fuel)
  from Suc.prems(3) show ?case
  proof
    assume a: "nd = N_csv_worker
          \<and> (\<forall>c i. last (messages (fst st)) = ToolMessage c i \<longrightarrow> (\<exists>t. c = Str t))"
    obtain st' where st': "step (evs k) N_csv_worker st = Inr (N_csv_tools, st')"
        "wf_ids (snd st') (messages (fst st'))" "messages (fst st') \<noteq> []"
        "has_tool_calls (last (messages (fst st')))"
      using csv_worker_step [of "evs k" st] assms(1) Suc.prems(1,2) a by blast
    have "run_graph evs fuel (Suc k) N_csv_tools st' = (Inl GraphRecursionError, Suc k + fuel)"
      using Suc.IH [OF st'(2,3)] st'(4) by simp
    then show ?thesis using a st'(1) by simp
  next
    assume a: "nd = N_csv_tools \<and> has_tool_calls (last (messages (fst st)))"
    obtain st' where st': "step (evs k) N_csv_tools st = Inr (N_csv_worker, st')"
        "wf_ids (snd st') (messages (fst st'))" "messages (fst st') \<noteq> []"
        "\<forall>c i. last (messages (fst st')) = ToolMessage c i \<longrightarrow> (\<exists>t. c = Str t)"
      using csv_tools_step [of "evs k" st] assms(2) Suc.prems(1,2) a by blast
    have "run_graph evs fuel (Suc k) N_csv_worker st' = (Inl GraphRecursionError, Suc k + fuel)"
      using Suc.IH [OF st'(2,3)] st'(4) by simp
    then show ?thesis using a st'(1) by simp
  qed
qed

lemma supervisor_step_csv:
  assumes "\<exists>f \<in> set files. endswith (lower f) ''.csv''"
    and "\<forall>f \<in> set files. \<not> endswith (lower f) ''.db''"
  shows "step ev N_supervisor (initial_run_state (initial_state files prompt)) =
     Inr (N_csv_worker,
          (initial_state files prompt)\<lparr>messages := [HumanMessage (Str prompt) (Some 0)],
             active_worker := ''csv_worker''\<rparr>, 1)"
proof -
  let ?s = "(initial_state files prompt)\<lparr>messages := [HumanMessage (Str prompt) (Some 0)]\<rparr>"
  have f: "file_paths ?s = files" by (simp add: initial_state_def)
  have "supervisor_node ?s = route_to ''csv_worker''"
    using supervisor_node_text [of ?s prompt] assms f by (simp add: list_ex_iff)
  then show ?thesis
    by (simp add: step_def initial_run_state_query route_to_def apply_update_def no_update_def
        supervisor_edge_def)
qed

theorem first_message_invariant_witness:
  "reachable (initial_state [''sales.csv''] ''plot the prices'')
     (N_csv_tools,
      (initial_state [''sales.csv''] ''plot the prices'')
        \<lparr>messages := [HumanMessage (Str ''plot the prices'') (Some 0),
                      AIMessage (Str []) [sample_call] (Some 1)],
         active_worker := ''csv_worker''\<rparr>, 2)
   \<and> hd (messages ((initial_state [''sales.csv''] ''plot the prices'')
        \<lparr>messages := [HumanMessage (Str ''plot the prices'') (Some 0),
                      AIMessage (Str []) [sample_call] (Some 1)],
         active_worker := ''csv_worker''\<rparr>))
     = HumanMessage (Str ''plot the prices'') (Some 0)"
proof -
  let ?input = "initial_state [''sales.csv''] ''plot the prices''"
  let ?s1 = "?input\<lparr>messages := [HumanMessage (Str ''plot the prices'') (Some 0)],
               active_worker := ''csv_worker''\<rparr>"
  let ?s2 = "?input\<lparr>messages := [HumanMessage (Str ''plot the prices'') (Some 0),
                      AIMessage (Str []) [sample_call] (Some 1)],
               active_worker := ''csv_worker''\<rparr>"
  have r0: "reachable ?input (N_supervisor, initial_run_state ?input)"
    by (rule reachable.start)
  have c: "\<exists>f \<in> set [''sales.csv'']. endswith (lower f) ''.csv''"
    by (simp add: endswith_def lower_def py_lower_char_def)
  have d: "\<forall>f \<in> set [''sales.csv'']. \<not> endswith (lower f) ''.db''"
    by (simp add: endswith_def lower_def py_lower_char_def)
  have s1: "step tool_calling_env N_supervisor (initial_run_state ?input)
      = Inr (N_csv_worker, ?s1, 1)"
    using supervisor_step_csv [OF c d] by simp
  have r1: "reachable ?input (N_csv_worker, ?s1, 1)"
    using reachable.visit [OF r0 s1] .
  have s2: "step tool_calling_env N_csv_worker (?s1, 1) = Inr (N_csv_tools, ?s2, 2)"
    by (simp add: step_def csv_worker_node_def tool_calling_env_def initial_state_def
        response_message_def apply_update_def add_messages_def no_update_def tool_edge_def
        Let_def)
  have r2: "reachable ?input (N_csv_tools, ?s2, 2)"
    using reachable.visit [OF r1 s2] .
  from first_message_invariant [OF r2] r2 show ?thesis by simp
qed

text \<open>
  Claim C8. A run of the graph makes at most as many node visits as the recursion limit,
  whatever the model and the tools answer. A run over a CSV file in which the model asks
  for a tool at every call never reaches \<open>END\<close>: after exactly \<open>recursion_limit\<close>
  visits it fails with the recursion error, which \<open>process_query\<close> hands to its caller
  as the HTTP error of the agent.
\<close>

theorem run_exhaustion:
  assumes "\<forall>k p s. r_tool_calls (llm (evs k) p s) \<noteq> []"
    and "\<forall>k tc. \<exists>t. run_tool (evs k) tc = Str t"
    and "\<exists>f \<in> set listing. endswith (lower f) ''.csv''"
    and "\<forall>f \<in> set listing. \<not> endswith (lower f) ''.db''"
  shows "(\<forall>evs' input. snd (app_graph_invoke evs' recursion_limit input) \<le> recursion_limit)
    \<and> app_graph_invoke evs recursion_limit (initial_state (get_local_files listing) prompt)
        = (Inl GraphRecursionError, recursion_limit)
    \<and> process_query evs listing prompt = Inl (AgentError GraphRecursionError)"
proof -
  let ?files = "get_local_files listing"
  have cap: "\<forall>evs' input. snd (app_graph_invoke evs' recursion_limit input) \<le> recursion_limit"
    using run_graph_visits [of _ recursion_limit 0] by (simp add: app_graph_invoke_def)
  have csv: "\<exists>f \<in> set ?files. endswith (lower f) ''.csv''"
    using assms(3) by (auto simp: get_local_files_def)
  have nodb: "\<forall>f \<in> set ?files. \<not> endswith (lower f) ''.db''"
    using assms(4) by (auto simp: get_local_files_def)
  have ne: "?files \<noteq> []" using csv by auto
  let ?s1 = "(initial_state ?files prompt)\<lparr>messages := [HumanMessage (Str prompt) (Some 0)],
             active_worker := ''csv_worker''\<rparr>"
  have first: "step (evs 0) N_supervisor (initial_run_state (initial_state ?files prompt))
      = Inr (N_csv_worker, ?s1, 1)"
    using supervisor_step_csv [OF csv nodb] by simp
  have loop: "run_graph evs 99 (Suc 0) N_csv_worker (?s1, 1) = (Inl GraphRecursionError, Suc 0 + 99)"
    by (rule csv_loop_exhausts [OF assms(1,2)]) (simp_all add: wf_ids_def)
  have lim: "recursion_limit = Suc 99" by (simp add: recursion_limit_def)
  have run: "app_graph_invoke evs recursion_limit (initial_state ?files prompt)
        = (Inl GraphRecursionError, recursion_limit)"
  proof -
    have "run_graph evs (Suc 99) 0 N_supervisor (initial_run_state (initial_state ?files prompt))
        = run_graph evs 99 (Suc 0) N_csv_worker (?s1, 1)"
      by (subst run_graph.simps(2)) (simp add: first)
    then show ?thesis unfolding app_graph_invoke_def lim loop by simp
  qed
  have "process_query evs listing prompt = Inl (AgentError GraphRecursionError)"
    using ne run by (simp add: process_query_def Let_def)
  then show ?thesis using cap run by blast
qed

theorem run_exhaustion_witness:
  "process_query always_tool_calling [''notes.txt'', ''sales.csv''] ''plot the prices''
     = Inl (AgentError GraphRecursionError)"
proof -
  have h1: "\<forall>k p s. r_tool_calls (llm (always_tool_calling k) p s) \<noteq> []"
    by (simp add: always_tool_calling_def tool_calling_env_def)
  have h2: "\<forall>k tc. \<exists>t. run_tool (always_tool_calling k) tc = Str t"
    by (simp add: always_tool_calling_def tool_calling_env_def)
  have h3: "\<exists>f \<in> set [''notes.txt'', ''sales.csv'']. endswith (lower f) ''.csv''"
    by (simp add: endswith_def lower_def py_lower_char_def)
  have h4: "\<forall>f \<in> set [''notes.txt'', ''sales.csv'']. \<not> endswith (lower f) ''.db''"
    by (simp add: endswith_def lower_def py_lower_char_def)
  from run_exhaustion [OF h1 h2 h3 h4] show ?thesis by blast
qed

section \<open>Chart-path extraction\<close>

lemma length_codes [simp]: "length (codes s) = length s"
  by (simp add: codes_def)

lemma codes_append: "codes (a @ b) = codes a @ codes b"
  by (simp add: codes_def)

lemma re_search_hit: "m s = Some g \<Longrightarrow> re_search m s = Some g"
  by (cases s) simp_all

lemma re_search_skip:
  "\<forall>i < length pre. m (drop i (pre @ rest)) = None
     \<Longrightarrow> re_search m (pre @ rest) = re_search m rest"
proof (induction pre)
  case Nil
  then show ?case by simp
next
  case (Cons c pre)
  have 0: "m (c # pre @ rest) = None"
    using Cons.prems [rule_format, of 0] by simp
  have "\<forall>i < length pre. m (drop i (pre @ rest)) = None"
  proof (intro allI impI)
    fix i assume "i < length pre"
    then show "m (drop i (pre @ rest)) = None"
      using Cons.prems [rule_format, of "Suc i"] by simp
  qed
  then have "re_search m (pre @ rest) = re_search m rest" by (rule Cons.IH)
  then show ?case using 0 by simp
qed

lemma re_search_none:
  "\<forall>i \<le> length s. m (drop i s) = None \<Longrightarrow> re_search m s = None"
proof (induction s)
  case Nil
  then show ?case by simp
next
  case (Cons c s)
  have 0: "m (c # s) = None"
    using Cons.prems [rule_format, of 0] by simp
  have "\<forall>i \<le> length s. m (drop i s) = None"
  proof (intro allI impI)
    fix i assume "i \<le> length s"
    then show "m (drop i s) = None"
      using Cons.prems [rule_format, of "Suc i"] by simp
  qed
  then have "re_search m s = None" by (rule Cons.IH)
  then show ?case using 0 by simp
qed

lemma istartswith_length: "istartswith s p \<Longrightarrow> length p \<le> length s"
  by (induction s p rule: istartswith.induct) simp_all

lemma istartswith_append:
  "length p \<le> length a \<Longrightarrow> istartswith (a @ b) p = istartswith a p"
  by (induction a p rule: istartswith.induct) simp_all

lemma istartswith_occurs: "istartswith (drop i s) p \<Longrightarrow> ci_in p s"
proof (induction s arbitrary: i)
  case Nil
  then show ?case by simp
next
  case (Cons c s)
  show ?case
  proof (cases i)
    case 0
    then show ?thesis using Cons.prems by simp
  next
    case (Suc j)
    then have "istartswith (drop j s) p" using Cons.prems by simp
    then have "ci_in p s" by (rule Cons.IH)
    then show ?thesis by simp
  qed
qed

lemma istartswith_occurs_before:
  assumes "istartswith (drop i (a @ b)) p" and "i + length p \<le> length a"
  shows "ci_in p a"
proof -
  have "drop i (a @ b) = drop i a @ b" using assms(2) by simp
  moreover have "length p \<le> length (drop i a)" using assms(2) by simp
  ultimately have "istartswith (drop i a) p"
    using assms(1) istartswith_append [of p "drop i a" b] by simp
  then show ?thesis by (rule istartswith_occurs)
qed

lemma no_match_before:
  assumes "\<not> ci_in p (pre @ a)" and "length p \<le> Suc (length a)"
    and "i < length pre"
  shows "\<not> istartswith (drop i (pre @ a @ b)) p"
proof
  assume "istartswith (drop i (pre @ a @ b)) p"
  then have "istartswith (drop i ((pre @ a) @ b)) p" by simp
  moreover have "i + length p \<le> length (pre @ a)" using assms(2,3) by simp
  ultimately have "ci_in p (pre @ a)" by (rule istartswith_occurs_before)
  then show False using assms(1) by simp
qed

lemma dot_plus_lazy_first:
  "a \<noteq> [] \<Longrightarrow> nl \<notin> set a \<Longrightarrow> k b
     \<Longrightarrow> \<forall>j. 1 \<le> j \<and> j < length a \<longrightarrow> \<not> k (drop j (a @ b))
     \<Longrightarrow> dot_plus_lazy nl k (a @ b) = Some a"
proof (induction a)
  case Nil
  then show ?case by simp
next
  case (Cons c a)
  show ?case
  proof (cases "a = []")
    case True
    then show ?thesis using Cons.prems by simp
  next
    case False
    have "1 \<le> (1::nat) \<and> 1 < length (c # a)" using False by simp
    then have "\<not> k (drop 1 ((c # a) @ b))" using Cons.prems(4) by blast
    then have nk: "\<not> k (a @ b)" by simp
    have "\<forall>j. 1 \<le> j \<and> j < length a \<longrightarrow> \<not> k (drop j (a @ b))"
    proof (intro allI impI)
      fix j assume "1 \<le> j \<and> j < length a"
      then have "\<not> k (drop (Suc j) ((c # a) @ b))" using Cons.prems(4) by auto
      then show "\<not> k (drop j (a @ b))" by simp
    qed
    then have "dot_plus_lazy nl k (a @ b) = Some a"
      using Cons.IH False Cons.prems by simp
    then show ?thesis using Cons.prems nk by auto
  qed
qed

lemma try_down_top: "lo \<le> j \<Longrightarrow> m j = Some g \<Longrightarrow> try_down m lo j = Some g"
  by (cases j) simp_all

lemma try_down_hit:
  "lo \<le> j0 \<Longrightarrow> j0 \<le> j \<Longrightarrow> \<forall>i. j0 < i \<and> i \<le> j \<longrightarrow> m i = None \<Longrightarrow> m j0 = Some g
     \<Longrightarrow> try_down m lo j = Some g"
proof (induction j)
  case 0
  then show ?case by simp
next
  case (Suc j)
  show ?case
  proof (cases "j0 = Suc j")
    case True
    then show ?thesis using Suc.prems by simp
  next
    case False
    then have "j0 \<le> j" using Suc.prems by simp
    moreover have "m (Suc j) = None" using Suc.prems False by simp
    moreover have "\<not> Suc j < lo" using Suc.prems by simp
    ultimately show ?thesis using Suc by simp
  qed
qed

lemma try_down_found:
  "try_down m lo j = Some g \<Longrightarrow> \<exists>i. lo \<le> i \<and> i \<le> j \<and> m i = Some g"
proof (induction j)
  case 0
  then show ?case by (auto split: if_splits)
next
  case (Suc j)
  show ?case
  proof (cases "m (Suc j)")
    case None
    then have "try_down m lo j = Some g" using Suc.prems by (auto split: if_splits)
    then obtain i where "lo \<le> i \<and> i \<le> j \<and> m i = Some g" using Suc.IH by blast
    then show ?thesis by (intro exI [of _ i]) simp
  next
    case (Some h)
    then have "\<not> Suc j < lo" "h = g" using Suc.prems by (auto split: if_splits)
    then show ?thesis using Some by (intro exI [of _ "Suc j"]) simp
  qed
qed

lemma takeWhile_prefix:
  "\<forall>c \<in> set a. p c \<Longrightarrow> b = [] \<or> \<not> p (hd b) \<Longrightarrow> takeWhile p (a @ b) = a"
proof (induction a)
  case Nil
  show ?case
  proof (cases b)
    case Nil
    then show ?thesis by simp
  next
    case (Cons x xs)
    then have "\<not> p x" using Nil.prems(2) by simp
    then show ?thesis using Cons by simp
  qed
next
  case (Cons c a)
  have "p c" using Cons.prems(1) by simp
  moreover have "takeWhile p (a @ b) = a" using Cons.IH Cons.prems by simp
  ultimately show ?case by simp
qed

lemma takeWhile_holds:
  assumes "t < length (takeWhile p r)"
  shows "p (r ! t)"
proof -
  have "takeWhile p r ! t \<in> set (takeWhile p r)" using assms by (rule nth_mem)
  then have "p (takeWhile p r ! t)" by (rule set_takeWhileD [THEN conjunct2])
  then show ?thesis using assms by (simp add: takeWhile_nth)
qed

lemma strip_id:
  "s \<noteq> [] \<Longrightarrow> \<not> is_space (hd s) \<Longrightarrow> \<not> is_space (last s) \<Longrightarrow> strip s = s"
proof -
  assume a: "s \<noteq> []" "\<not> is_space (hd s)" "\<not> is_space (last s)"
  then have 1: "dropWhile is_space s = s" by (cases s) simp_all
  have "rev s \<noteq> []" "\<not> is_space (hd (rev s))" using a by (simp_all add: hd_rev)
  then have "dropWhile is_space (rev s) = rev s" by (cases "rev s") simp_all
  then show ?thesis using 1 by (simp add: strip_def)
qed

text \<open>Lower-casing keeps a stretch of ASCII text that has no capital letter.\<close>

lemma lower_from_plain:
  "\<forall>c \<in> set a. c < 128 \<and> ascii_lower c = c
     \<Longrightarrow> lower_from T before (a @ ys) = a @ lower_from T (before @ a) ys"
  by (induction a arbitrary: before) simp_all

lemma lower_from_keeps:
  assumes "\<forall>c \<in> set a. c < 128 \<and> ascii_lower c = c"
  shows "\<exists>pre post. lower_from T before (xs @ a @ ys) = pre @ a @ post"
proof (induction xs arbitrary: before)
  case Nil
  have "lower_from T before (a @ ys) = [] @ a @ lower_from T (before @ a) ys"
    using lower_from_plain [OF assms] by simp
  then show ?case by (metis append_Nil)
next
  case (Cons x xs)
  obtain pre post where "lower_from T (before @ [x]) (xs @ a @ ys) = pre @ a @ post"
    using Cons.IH by blast
  then have "lower_from T before ((x # xs) @ a @ ys)
      = ((if x < 128 then [ascii_lower x] else lower_code T before x (xs @ a @ ys)) @ pre)
          @ a @ post"
    by simp
  then show ?case by blast
qed

lemma png_only_at_end:
  assumes "\<not> ci_in ''.png'' (q @ codes ''.pn'')"
    and "istartswith (drop j (q @ codes ''.png'' @ rest)) ''.png''"
  shows "length q \<le> j"
proof (rule ccontr)
  assume "\<not> length q \<le> j"
  then have "j + length ''.png'' \<le> length (q @ codes ''.pn'')" by simp
  moreover have "q @ codes ''.png'' @ rest = (q @ codes ''.pn'') @ codes ''g'' @ rest"
    by (simp add: codes_def)
  then have "istartswith (drop j ((q @ codes ''.pn'') @ codes ''g'' @ rest)) ''.png''"
    using assms(2) by (simp only:)
  ultimately have "ci_in ''.png'' (q @ codes ''.pn'')"
    by (rule istartswith_occurs_before [rotated])
  then show False using assms(1) by simp
qed

lemma istartswith_png: "istartswith (codes ''.png'' @ rest) ''.png''"
  by (simp add: codes_def ci_match_def ascii_lower_def)

lemma png_group_path:
  assumes "q \<noteq> []" and "10 \<notin> set q"
    and "\<not> ci_in ''.png'' (q @ codes ''.pn'')"
    and "k rest"
  shows "png_group k (q @ codes ''.png'' @ rest) = Some (q @ codes ''.png'')"
proof -
  define kk where "kk = (\<lambda>r. istartswith r ''.png'' \<and> k (drop 4 r))"
  have kb: "kk (codes ''.png'' @ rest)"
    unfolding kk_def using assms(4) istartswith_png by simp
  have no: "\<forall>j. 1 \<le> j \<and> j < length q \<longrightarrow> \<not> kk (drop j (q @ codes ''.png'' @ rest))"
  proof (intro allI impI notI)
    fix j assume j: "1 \<le> j \<and> j < length q"
    assume "kk (drop j (q @ codes ''.png'' @ rest))"
    then have "istartswith (drop j (q @ codes ''.png'' @ rest)) ''.png''"
      by (simp add: kk_def)
    then have "length q \<le> j" by (rule png_only_at_end [OF assms(3)])
    then show False using j by simp
  qed
  have "dot_plus_lazy 10 kk (q @ codes ''.png'' @ rest) = Some q"
    using dot_plus_lazy_first [of q 10 kk "codes ''.png'' @ rest", OF assms(1,2) kb no] .
  then show ?thesis unfolding png_group_def kk_def by simp
qed

lemma file_char_facts:
  "\<not> is_file_char T 10" "\<not> is_file_char T 47" "\<forall>c \<in> set (codes ''.png''). is_file_char T c"
  by (simp_all add: is_file_char_def is_word_def codes_def)

lemma space_facts: "\<not> is_space 99" "\<not> is_space 103"
  by (simp_all add: is_space_def)

lemma charts_pattern_here:
  assumes "x \<noteq> []" and "\<forall>c \<in> set x. is_file_char T c"
  shows "charts_pattern T (codes ''charts/'' @ x @ codes ''.png'') = Some (x @ codes ''.png'')"
proof -
  define r where "r = x @ codes ''.png''"
  define m where "m = (\<lambda>j. if istartswith (drop j r) ''.png'' then Some (take (j + 4) r) else None)"
  have all: "\<forall>c \<in> set r. is_file_char T c"
    unfolding r_def using assms(2) file_char_facts(3) by auto
  have tw: "takeWhile (is_file_char T) r = r"
    using takeWhile_prefix [of r "is_file_char T" "[]"] all by simp
  have lr: "length r = length x + 4" by (simp add: r_def)
  have "drop (length x) r = codes ''.png'' @ []" by (simp add: r_def)
  then have "istartswith (drop (length x) r) ''.png''" using istartswith_png by (simp only:)
  then have hit: "m (length x) = Some r" by (simp add: m_def lr)
  have above: "\<forall>i. length x < i \<and> i \<le> length r \<longrightarrow> m i = None"
  proof (intro allI impI)
    fix i assume i: "length x < i \<and> i \<le> length r"
    have "\<not> istartswith (drop i r) ''.png''"
    proof
      assume "istartswith (drop i r) ''.png''"
      then have "length ''.png'' \<le> length (drop i r)" by (rule istartswith_length)
      then show False using i lr by simp arith
    qed
    then show "m i = None" by (simp add: m_def)
  qed
  have "1 \<le> length x" using assms(1) by (cases x) simp_all
  then have td: "try_down m 1 (length r) = Some r"
    using try_down_hit [of 1 "length x" "length r" m r] hit above lr by simp
  have st: "istartswith (codes ''charts/'' @ r) ''charts''"
    by (simp add: codes_def ci_match_def ascii_lower_def)
  have dr: "drop 6 (codes ''charts/'' @ r) = 47 # r" by (simp add: codes_def)
  have "charts_pattern T (codes ''charts/'' @ r) = try_down m 1 (length (takeWhile (is_file_char T) r))"
    unfolding charts_pattern_def m_def using st dr by simp
  then have "charts_pattern T (codes ''charts/'' @ r) = Some r"
    unfolding tw using td by (simp only:)
  then show ?thesis unfolding r_def .
qed

lemma charts_pattern_found:
  assumes "charts_pattern T s = Some g"
  shows "\<exists>j. 1 \<le> j \<and> j \<le> length (takeWhile (is_file_char T) (drop 7 s))
           \<and> istartswith (drop (7 + j) s) ''.png''"
proof -
  have st: "istartswith s ''charts''"
  proof (rule ccontr)
    assume "\<not> istartswith s ''charts''"
    then have "charts_pattern T s = None" by (simp add: charts_pattern_def)
    then show False using assms by simp
  qed
  obtain c r where cr: "drop 6 s = c # r"
  proof (cases "drop 6 s")
    case Nil
    then have "charts_pattern T s = None" by (simp add: charts_pattern_def)
    then show ?thesis using assms by simp
  next
    case (Cons c r)
    then show ?thesis using that by blast
  qed
  have "drop 1 (drop 6 s) = r" unfolding cr by simp
  then have r: "r = drop 7 s" by simp
  define m where "m = (\<lambda>j. if istartswith (drop j r) ''.png'' then Some (take (j + 4) r) else None)"
  define n where "n = length (takeWhile (is_file_char T) r)"
  have cp: "charts_pattern T s = (if c = 47 \<or> c = 92 then try_down m 1 n else None)"
    unfolding charts_pattern_def m_def n_def using st cr by simp
  have "try_down m 1 n = Some g"
  proof (cases "c = 47 \<or> c = 92")
    case True
    then show ?thesis using cp assms by (simp only: if_True)
  next
    case False
    then have "charts_pattern T s = None" using cp by (simp only: if_False)
    then show ?thesis using assms by simp
  qed
  from try_down_found [OF this]
  obtain j where j: "1 \<le> j" "j \<le> n" "m j = Some g" by auto
  have "istartswith (drop j r) ''.png''"
  proof (rule ccontr)
    assume "\<not> istartswith (drop j r) ''.png''"
    then have "m j = None" by (simp add: m_def)
    then show False using j(3) by simp
  qed
  then have "istartswith (drop (7 + j) s) ''.png''"
    unfolding r using drop_drop [of j 7 s] by (simp only: add.commute)
  then show ?thesis using j(1,2) unfolding n_def r by blast
qed

lemma charts_pattern_not_before:
  assumes "x \<noteq> []"
    and "\<not> ci_in ''.png'' (d @ codes ''charts/'' @ x @ codes ''.pn'')"
    and "i < length d"
  shows "charts_pattern T (drop i (d @ codes ''charts/'' @ x @ codes ''.png'')) = None"
proof (rule ccontr)
  define q where "q = d @ codes ''charts/'' @ x"
  define P where "P = q @ codes ''.png'' @ []"
  have P: "d @ codes ''charts/'' @ x @ codes ''.png'' = P" by (simp add: P_def q_def)
  have lq: "length q = length d + 7 + length x" by (simp add: q_def)
  have slash: "P ! (length d + 6) = 47" by (simp add: P_def q_def nth_append codes_def)
  have nopng: "\<not> ci_in ''.png'' (q @ codes ''.pn'')" using assms(2) by (simp add: q_def)
  assume "charts_pattern T (drop i (d @ codes ''charts/'' @ x @ codes ''.png'')) \<noteq> None"
  then obtain g where "charts_pattern T (drop i P) = Some g" unfolding P by auto
  from charts_pattern_found [OF this]
  obtain j where j: "1 \<le> j" "j \<le> length (takeWhile (is_file_char T) (drop 7 (drop i P)))"
      "istartswith (drop (7 + j) (drop i P)) ''.png''"
    by auto
  have e: "7 + j + i = i + 7 + j" by arith
  have "drop (7 + j) (drop i P) = drop (i + 7 + j) P"
    using drop_drop [of "7 + j" i P] e by (simp only:)
  then have occ: "istartswith (drop (i + 7 + j) (q @ codes ''.png'' @ [])) ''.png''"
    using j(3) unfolding P_def by (simp only:)
  have ge: "length q \<le> i + 7 + j" using png_only_at_end [OF nopng occ] .
  define t where "t = length d - i - 1"
  have tj: "t < j" using ge lq assms(1,3) unfolding t_def by (cases x) simp_all
  have e2: "drop 7 (drop i P) = drop (i + 7) P"
    using drop_drop [of 7 i P] by (simp only: add.commute)
  have "t < length (takeWhile (is_file_char T) (drop (i + 7) P))"
    using j(2) tj unfolding e2 by arith
  then have fc: "is_file_char T (drop (i + 7) P ! t)" by (rule takeWhile_holds)
  have lP: "length d + 6 < length P" by (simp add: P_def q_def)
  have idx: "i + 7 + t = length d + 6" using assms(3) unfolding t_def by arith
  have "i + 7 + t < length P" using lP idx by simp
  then have "drop (i + 7) P ! t = P ! (i + 7 + t)" by simp
  then have "drop (i + 7) P ! t = 47" using slash idx by simp
  then show False using fc file_char_facts(2) by simp
qed

lemma re_search_charts:
  assumes "x \<noteq> []" and "\<forall>c \<in> set x. is_file_char T c"
    and "\<not> ci_in ''.png'' (d @ codes ''charts/'' @ x @ codes ''.pn'')"
  shows "re_search (charts_pattern T) (d @ codes ''charts/'' @ x @ codes ''.png'')
           = Some (x @ codes ''.png'')"
proof -
  have "\<forall>i < length d. charts_pattern T (drop i (d @ codes ''charts/'' @ x @ codes ''.png'')) = None"
    using charts_pattern_not_before [OF assms(1,3)] by blast
  then have "re_search (charts_pattern T) (d @ codes ''charts/'' @ x @ codes ''.png'')
      = re_search (charts_pattern T) (codes ''charts/'' @ x @ codes ''.png'')"
    by (rule re_search_skip)
  then show ?thesis
    using re_search_hit [of "charts_pattern T" "codes ''charts/'' @ x @ codes ''.png''"
        "x @ codes ''.png''"]
      charts_pattern_here [OF assms(1,2)] by simp
qed

lemma relative_chart_path_charts:
  assumes "x \<noteq> []" and "\<forall>c \<in> set x. is_file_char T c"
    and "\<not> ci_in ''.png'' (d @ codes ''charts/'' @ x @ codes ''.pn'')"
  shows "relative_chart_path T (d @ codes ''charts/'' @ x @ codes ''.png'')
           = codes ''charts/'' @ x @ codes ''.png''"
proof -
  have plain: "\<forall>c \<in> set (codes ''charts''). c < 128 \<and> ascii_lower c = c"
    by (simp add: codes_def ascii_lower_def)
  have "d @ codes ''charts/'' @ x @ codes ''.png''
      = d @ codes ''charts'' @ (codes ''/'' @ x @ codes ''.png'')"
    by (simp add: codes_def)
  then have "\<exists>pre post. ulower T (d @ codes ''charts/'' @ x @ codes ''.png'')
      = pre @ codes ''charts'' @ post"
    unfolding ulower_def using lower_from_keeps [OF plain] by (simp only:)
  then have "str_in (codes ''charts'') (ulower T (d @ codes ''charts/'' @ x @ codes ''.png''))"
    unfolding str_in_iff .
  then show ?thesis
    using re_search_charts [OF assms] by (simp add: relative_chart_path_def)
qed

lemma strip_path:
  assumes "d = [] \<or> \<not> is_space (hd d)"
  shows "strip (d @ codes ''charts/'' @ x @ codes ''.png'') = d @ codes ''charts/'' @ x @ codes ''.png''"
proof (rule strip_id)
  show "d @ codes ''charts/'' @ x @ codes ''.png'' \<noteq> []" by (simp add: codes_def)
  show "\<not> is_space (hd (d @ codes ''charts/'' @ x @ codes ''.png''))"
    using assms space_facts by (cases d) (simp_all add: codes_def)
  show "\<not> is_space (last (d @ codes ''charts/'' @ x @ codes ''.png''))"
    using space_facts by (simp add: codes_def)
qed

lemma saved_to_pattern_here:
  assumes "istartswith s ''saved to:''"
    and "drop 9 s = ws @ q @ codes ''.png'' @ post"
    and "\<forall>c \<in> set ws. is_space c"
    and "q \<noteq> []" and "\<not> is_space (hd q)" and "10 \<notin> set q"
    and "\<not> ci_in ''.png'' (q @ codes ''.pn'')"
  shows "saved_to_pattern s = Some (q @ codes ''.png'')"
proof -
  define r where "r = ws @ q @ codes ''.png'' @ post"
  define m where "m = (\<lambda>j. png_group (\<lambda>t. True) (drop j r))"
  have "hd (q @ codes ''.png'' @ post) = hd q" using assms(4) by simp
  then have "q @ codes ''.png'' @ post = [] \<or> \<not> is_space (hd (q @ codes ''.png'' @ post))"
    using assms(5) by simp
  then have tw: "takeWhile is_space r = ws"
    unfolding r_def using assms(3) by (rule takeWhile_prefix [rotated])
  have "drop (length ws) r = q @ codes ''.png'' @ post" by (simp add: r_def)
  then have "m (length ws) = Some (q @ codes ''.png'')"
    unfolding m_def using png_group_path [OF assms(4,6,7), of "\<lambda>t. True" post] by simp
  then have "try_down m 0 (length ws) = Some (q @ codes ''.png'')"
    using try_down_top [of 0 "length ws" m "q @ codes ''.png''"] by simp
  then have "try_down m 0 (length (takeWhile is_space r)) = Some (q @ codes ''.png'')"
    unfolding tw .
  then show ?thesis
    unfolding saved_to_pattern_def m_def r_def Let_def assms(2) using assms(1)
    by (simp only: if_True)
qed

lemma chart_saved_pattern_here:
  assumes "istartswith s ''[Chart saved to''"
    and "drop 15 s = ws @ q @ codes ''.png'' @ codes '']'' @ post"
    and "\<forall>c \<in> set ws. is_space c" and "ws \<noteq> []"
    and "q \<noteq> []" and "\<not> is_space (hd q)" and "10 \<notin> set q"
    and "\<not> ci_in ''.png'' (q @ codes ''.pn'')"
  shows "chart_saved_pattern s = Some (q @ codes ''.png'')"
proof -
  define r where "r = ws @ q @ codes ''.png'' @ codes '']'' @ post"
  define m where "m = (\<lambda>j. png_group (\<lambda>t. istartswith t '']'') (drop j r))"
  have "hd (q @ codes ''.png'' @ codes '']'' @ post) = hd q" using assms(5) by simp
  then have "q @ codes ''.png'' @ codes '']'' @ post = []
      \<or> \<not> is_space (hd (q @ codes ''.png'' @ codes '']'' @ post))"
    using assms(6) by simp
  then have tw: "takeWhile is_space r = ws"
    unfolding r_def using assms(3) by (rule takeWhile_prefix [rotated])
  have k: "istartswith (codes '']'' @ post) '']''"
    by (simp add: codes_def ci_match_def ascii_lower_def)
  have "drop (length ws) r = q @ codes ''.png'' @ codes '']'' @ post" by (simp add: r_def)
  then have "m (length ws) = Some (q @ codes ''.png'')"
    unfolding m_def
    using png_group_path [OF assms(5,7,8), of "\<lambda>t. istartswith t '']''" "codes '']'' @ post"] k
    by simp
  moreover have "1 \<le> length ws" using assms(4) by (cases ws) simp_all
  ultimately have "try_down m 1 (length ws) = Some (q @ codes ''.png'')"
    using try_down_top [of 1 "length ws" m "q @ codes ''.png''"] by simp
  then have "try_down m 1 (length (takeWhile is_space r)) = Some (q @ codes ''.png'')"
    unfolding tw .
  then show ?thesis
    unfolding chart_saved_pattern_def m_def r_def Let_def assms(2) using assms(1)
    by (simp only: if_True)
qed

lemma re_search_saved_to:
  assumes "\<forall>c \<in> set ws. is_space c"
    and "q \<noteq> []" and "\<not> is_space (hd q)" and "10 \<notin> set q"
    and "\<not> ci_in ''.png'' (q @ codes ''.pn'')"
    and "\<not> ci_in ''saved to:'' (pre @ codes ''saved to'')"
  shows "re_search saved_to_pattern (pre @ codes ''saved to:'' @ ws @ q @ codes ''.png'' @ post)
           = Some (q @ codes ''.png'')"
proof -
  define marker where "marker = codes ''saved to:'' @ ws @ q @ codes ''.png'' @ post"
  have m1: "istartswith marker ''saved to:''"
    by (simp add: marker_def codes_def ci_match_def ascii_lower_def)
  have m2: "drop 9 marker = ws @ q @ codes ''.png'' @ post" by (simp add: marker_def)
  have here: "saved_to_pattern marker = Some (q @ codes ''.png'')"
    using saved_to_pattern_here [OF m1 m2 assms(1-5)] .
  have mk: "marker = codes ''saved to'' @ codes '':'' @ ws @ q @ codes ''.png'' @ post"
    by (simp add: marker_def codes_def)
  have "\<forall>i < length pre. saved_to_pattern (drop i (pre @ marker)) = None"
  proof (intro allI impI)
    fix i assume i: "i < length pre"
    have "length ''saved to:'' \<le> Suc (length (codes ''saved to''))" by simp
    from no_match_before [OF assms(6) this i]
    have "\<not> istartswith (drop i (pre @ marker)) ''saved to:''" unfolding mk .
    then show "saved_to_pattern (drop i (pre @ marker)) = None"
      by (simp add: saved_to_pattern_def)
  qed
  then have "re_search saved_to_pattern (pre @ marker) = re_search saved_to_pattern marker"
    by (rule re_search_skip)
  also have "\<dots> = Some (q @ codes ''.png'')"
    using here by (rule re_search_hit)
  finally show ?thesis unfolding marker_def .
qed

text \<open>
  Claim C6, as stated, fails: the result depends on the prefix of the path. The group
  \<open>(.+?\.png)\<close> is lazy and ends at the first \<open>.png\<close>, so a directory named
  \<open>a.png\<close> in the prefix cuts the path short; what is left has no \<open>charts\<close> in it and
  is returned as it is.
\<close>

theorem chart_path_depends_on_prefix:
  "extract_chart_path sample_tables (codes ''Chart saved to: /home/a.png/charts/x.png'')
     = Some (codes ''/home/a.png'')"
proof -
  have t: "codes ''Chart saved to: /home/a.png/charts/x.png''
      = codes ''Chart '' @ codes ''saved to:'' @ [32] @ codes ''/home/a'' @ codes ''.png''
          @ codes ''/charts/x.png''"
    by (simp add: codes_def)
  have "re_search saved_to_pattern (codes ''Chart '' @ codes ''saved to:'' @ [32]
          @ codes ''/home/a'' @ codes ''.png'' @ codes ''/charts/x.png'')
      = Some (codes ''/home/a'' @ codes ''.png'')"
    by (rule re_search_saved_to)
      (simp_all add: codes_def is_space_def ci_match_def ascii_lower_def)
  then have r: "re_search saved_to_pattern (codes ''Chart saved to: /home/a.png/charts/x.png'')
      = Some (codes ''/home/a.png'')"
    unfolding t by (simp add: codes_def)
  have s: "strip (codes ''/home/a.png'') = codes ''/home/a.png''"
    by (rule strip_id) (simp_all add: codes_def is_space_def)
  have n: "relative_chart_path sample_tables (codes ''/home/a.png'') = codes ''/home/a.png''"
    by (simp add: relative_chart_path_def ulower_def codes_def ascii_lower_def startswith_def)
  show ?thesis by (simp add: extract_chart_path_def r s n)
qed

text \<open>
  The long s counts as an \<open>s\<close> under \<open>re.IGNORECASE\<close>, so a text that begins with
  it has its marker there.
\<close>

lemma long_s_is_a_marker:
  "extract_chart_path sample_tables
     (383 # codes ''aved to: old.png. Chart saved to: /home/u/project/charts/x.png'')
     = Some (codes ''old.png'')"
proof -
  let ?text = "383 # codes ''aved to: old.png. Chart saved to: /home/u/project/charts/x.png''"
  have m1: "istartswith ?text ''saved to:''"
    by (simp add: codes_def ci_match_def ascii_lower_def)
  have m2: "drop 9 ?text = [32] @ codes ''old'' @ codes ''.png''
      @ codes ''. Chart saved to: /home/u/project/charts/x.png''"
    by (simp add: codes_def)
  have "saved_to_pattern ?text = Some (codes ''old'' @ codes ''.png'')"
    by (rule saved_to_pattern_here [OF m1 m2])
      (simp_all add: codes_def is_space_def ci_match_def ascii_lower_def)
  then have r: "re_search saved_to_pattern ?text = Some (codes ''old.png'')"
    using re_search_hit [of saved_to_pattern ?text] by (simp add: codes_def)
  have s: "strip (codes ''old.png'') = codes ''old.png''"
    by (rule strip_id) (simp_all add: codes_def is_space_def)
  have n: "relative_chart_path sample_tables (codes ''old.png'') = codes ''old.png''"
    by (simp add: relative_chart_path_def ulower_def codes_def ascii_lower_def startswith_def)
  show ?thesis unfolding extract_chart_path_def r by (simp add: s n)
qed

lemma path_facts:
  assumes "\<forall>c \<in> set x. is_file_char T c" and "10 \<notin> set d"
    and "d = [] \<or> \<not> is_space (hd d)"
  shows "d @ codes ''charts/'' @ x \<noteq> []" "\<not> is_space (hd (d @ codes ''charts/'' @ x))"
    "10 \<notin> set (d @ codes ''charts/'' @ x)"
proof -
  show "d @ codes ''charts/'' @ x \<noteq> []" by (simp add: codes_def)
  show "\<not> is_space (hd (d @ codes ''charts/'' @ x))"
    using assms(3) space_facts by (cases d) (simp_all add: codes_def)
  have "10 \<notin> set x" using assms(1) file_char_facts(1) by blast
  then show "10 \<notin> set (d @ codes ''charts/'' @ x)" using assms(2) by (simp add: codes_def)
qed

text \<open>
  Claim C6, amended. Let the text be \<open>pre\<close>, a marker and \<open>post\<close>, where the marker is
  \<open>saved to:\<close>, optional white space and the path, or \<open>[Chart saved to\<close>, white space,
  the path and \<open>]\<close>. Let the path be a prefix \<open>d\<close> followed by \<open>charts/x.png\<close>, with
  \<open>x\<close> a non-empty name of characters of the class \<open>[\w\-_.]\<close>; let it have no
  newline, not begin with white space, and contain \<open>.png\<close>, in any letter case, only at
  its end. If no \<open>saved to:\<close> begins before the first marker, or, for the second marker,
  if \<open>saved to:\<close> occurs nowhere in the text and no \<open>[Chart saved to\<close> begins before the
  marker, each as \<open>re.IGNORECASE\<close> counts an occurrence, then \<open>extract_chart_path\<close>
  returns exactly \<open>charts/x.png\<close>, whatever the prefix \<open>d\<close> is and whatever the Unicode
  tables are.
\<close>

theorem extract_chart_path_charts:
  assumes "x \<noteq> []" and "\<forall>c \<in> set x. is_file_char T c"
    and "10 \<notin> set d" and "d = [] \<or> \<not> is_space (hd d)"
    and "\<not> ci_in ''.png'' (d @ codes ''charts/'' @ x @ codes ''.pn'')"
    and "\<forall>c \<in> set ws. is_space c"
  shows "(\<not> ci_in ''saved to:'' (pre @ codes ''saved to'')
          \<longrightarrow> extract_chart_path T
                (pre @ codes ''saved to:'' @ ws @ d @ codes ''charts/'' @ x @ codes ''.png'' @ post)
              = Some (codes ''charts/'' @ x @ codes ''.png''))
    \<and> (ws \<noteq> []
         \<and> \<not> ci_in ''saved to:''
               (pre @ codes ''[Chart saved to'' @ ws @ d @ codes ''charts/'' @ x @ codes ''.png]''
                  @ post)
         \<and> \<not> ci_in ''[Chart saved to'' (pre @ codes ''[Chart saved t'')
          \<longrightarrow> extract_chart_path T
                (pre @ codes ''[Chart saved to'' @ ws @ d @ codes ''charts/'' @ x @ codes ''.png]''
                   @ post)
              = Some (codes ''charts/'' @ x @ codes ''.png''))"
proof (intro conjI impI)
  define q where "q = d @ codes ''charts/'' @ x"
  have q: "q \<noteq> []" "\<not> is_space (hd q)" "10 \<notin> set q"
    unfolding q_def using path_facts [OF assms(2,3,4)] by blast+
  have nopng: "\<not> ci_in ''.png'' (q @ codes ''.pn'')" using assms(5) by (simp add: q_def)
  have norm: "relative_chart_path T (strip (q @ codes ''.png'')) = codes ''charts/'' @ x @ codes ''.png''"
    using strip_path [OF assms(4), of x] relative_chart_path_charts [OF assms(1,2,5)]
    by (simp add: q_def)
  {
    assume e: "\<not> ci_in ''saved to:'' (pre @ codes ''saved to'')"
    have "re_search saved_to_pattern
            (pre @ codes ''saved to:'' @ ws @ q @ codes ''.png'' @ post)
        = Some (q @ codes ''.png'')"
      using re_search_saved_to [OF assms(6) q nopng e] .
    then have "extract_chart_path T (pre @ codes ''saved to:'' @ ws @ q @ codes ''.png'' @ post)
        = Some (codes ''charts/'' @ x @ codes ''.png'')"
      using norm by (simp add: extract_chart_path_def)
    then show "extract_chart_path T
                (pre @ codes ''saved to:'' @ ws @ d @ codes ''charts/'' @ x @ codes ''.png'' @ post)
              = Some (codes ''charts/'' @ x @ codes ''.png'')"
      by (simp add: q_def)
  }
  {
    assume a: "ws \<noteq> []
         \<and> \<not> ci_in ''saved to:''
               (pre @ codes ''[Chart saved to'' @ ws @ d @ codes ''charts/'' @ x @ codes ''.png]''
                  @ post)
         \<and> \<not> ci_in ''[Chart saved to'' (pre @ codes ''[Chart saved t'')"
    define marker where
      "marker = codes ''[Chart saved to'' @ ws @ q @ codes ''.png'' @ codes '']'' @ post"
    have tx: "pre @ codes ''[Chart saved to'' @ ws @ d @ codes ''charts/'' @ x @ codes ''.png]''
          @ post = pre @ marker"
      by (simp add: marker_def q_def codes_def)
    have m1: "istartswith marker ''[Chart saved to''"
      by (simp add: marker_def codes_def ci_match_def ascii_lower_def)
    have m2: "drop 15 marker = ws @ q @ codes ''.png'' @ codes '']'' @ post"
      by (simp add: marker_def)
    have wsne: "ws \<noteq> []" using a by simp
    have here: "chart_saved_pattern marker = Some (q @ codes ''.png'')"
      using chart_saved_pattern_here [OF m1 m2 assms(6) wsne q nopng] .
    have nocolon: "\<not> ci_in ''saved to:'' (pre @ marker)" using a unfolding tx by simp
    have "\<forall>i \<le> length (pre @ marker). saved_to_pattern (drop i (pre @ marker)) = None"
    proof (intro allI impI)
      fix i
      have "\<not> istartswith (drop i (pre @ marker)) ''saved to:''"
        using istartswith_occurs [of i "pre @ marker" "''saved to:''"] nocolon by blast
      then show "saved_to_pattern (drop i (pre @ marker)) = None"
        by (simp add: saved_to_pattern_def)
    qed
    then have first: "re_search saved_to_pattern (pre @ marker) = None"
      by (rule re_search_none)
    have mk: "marker = codes ''[Chart saved t'' @ codes ''o'' @ ws @ q @ codes ''.png''
        @ codes '']'' @ post"
      by (simp add: marker_def codes_def)
    have e: "\<not> ci_in ''[Chart saved to'' (pre @ codes ''[Chart saved t'')" using a by simp
    have "\<forall>i < length pre. chart_saved_pattern (drop i (pre @ marker)) = None"
    proof (intro allI impI)
      fix i assume i: "i < length pre"
      have "length ''[Chart saved to'' \<le> Suc (length (codes ''[Chart saved t''))" by simp
      from no_match_before [OF e this i]
      have "\<not> istartswith (drop i (pre @ marker)) ''[Chart saved to''" unfolding mk .
      then show "chart_saved_pattern (drop i (pre @ marker)) = None"
        by (simp add: chart_saved_pattern_def)
    qed
    then have "re_search chart_saved_pattern (pre @ marker)
        = re_search chart_saved_pattern marker"
      by (rule re_search_skip)
    also have "\<dots> = Some (q @ codes ''.png'')"
      using here by (rule re_search_hit)
    finally have "extract_chart_path T (pre @ marker) = Some (codes ''charts/'' @ x @ codes ''.png'')"
      using norm first by (simp add: extract_chart_path_def)
    then show "extract_chart_path T
                (pre @ codes ''[Chart saved to'' @ ws @ d @ codes ''charts/'' @ x @ codes ''.png]''
                   @ post)
              = Some (codes ''charts/'' @ x @ codes ''.png'')"
      unfolding tx .
  }
qed

theorem extract_chart_path_charts_witness:
  "extract_chart_path sample_tables
     (128202 # codes '' Chart saved to: /home/u/project/charts/x.png'')
     = Some (codes ''charts/x.png'')
   \<and> extract_chart_path sample_tables
       (codes ''3 rows[Chart saved to /home/u/project/charts/x.png]'')
       = Some (codes ''charts/x.png'')"
proof -
  have h1: "codes ''x'' \<noteq> []" by (simp add: codes_def)
  have h2: "\<forall>c \<in> set (codes ''x''). is_file_char sample_tables c"
    by (simp add: codes_def is_file_char_def is_word_def)
  have h3: "10 \<notin> set (codes ''/home/u/project/'')" by (simp add: codes_def)
  have h4: "codes ''/home/u/project/'' = [] \<or> \<not> is_space (hd (codes ''/home/u/project/''))"
    by (simp add: codes_def is_space_def)
  have h5: "\<not> ci_in ''.png''
      (codes ''/home/u/project/'' @ codes ''charts/'' @ codes ''x'' @ codes ''.pn'')"
    by (simp add: codes_def ci_match_def ascii_lower_def)
  have h6: "\<forall>c \<in> set [32]. is_space c" by (simp add: is_space_def)
  have p1: "\<not> ci_in ''saved to:'' ((128202 # codes '' Chart '') @ codes ''saved to'')"
    by (simp add: codes_def ci_match_def ascii_lower_def)
  have p2: "[32] \<noteq> []
         \<and> \<not> ci_in ''saved to:''
               (codes ''3 rows'' @ codes ''[Chart saved to'' @ [32] @ codes ''/home/u/project/''
                  @ codes ''charts/'' @ codes ''x'' @ codes ''.png]'' @ [])
         \<and> \<not> ci_in ''[Chart saved to'' (codes ''3 rows'' @ codes ''[Chart saved t'')"
    by (simp add: codes_def ci_match_def ascii_lower_def)
  have t1: "(128202 # codes '' Chart '') @ codes ''saved to:'' @ [32] @ codes ''/home/u/project/''
        @ codes ''charts/'' @ codes ''x'' @ codes ''.png'' @ []
      = 128202 # codes '' Chart saved to: /home/u/project/charts/x.png''"
    by (simp add: codes_def)
  have t2: "codes ''3 rows'' @ codes ''[Chart saved to'' @ [32] @ codes ''/home/u/project/''
        @ codes ''charts/'' @ codes ''x'' @ codes ''.png]'' @ []
      = codes ''3 rows[Chart saved to /home/u/project/charts/x.png]''"
    by (simp add: codes_def)
  have t3: "codes ''charts/'' @ codes ''x'' @ codes ''.png'' = codes ''charts/x.png''"
    by (simp add: codes_def)
  note th = extract_chart_path_charts [OF h1 h2 h3 h4 h5 h6, where post = "[]"]
  have a: "extract_chart_path sample_tables
     (128202 # codes '' Chart saved to: /home/u/project/charts/x.png'')
     = Some (codes ''charts/x.png'')"
    using th [where pre = "128202 # codes '' Chart ''", THEN conjunct1, rule_format, OF p1]
    unfolding t1 t3 .
  have b: "extract_chart_path sample_tables
       (codes ''3 rows[Chart saved to /home/u/project/charts/x.png]'')
       = Some (codes ''charts/x.png'')"
    using th [where pre = "codes ''3 rows''", THEN conjunct2, rule_format, OF p2]
    unfolding t2 t3 .
  from a b show ?thesis by (rule conjI)
qed

end
